theory Spec2Isabelle
  imports Complex_Main
begin

section \<open>Chess board segmentation: the board-localisation geometry\<close>

text \<open>
  The functions modelled here are those of the notebook
  \<^verbatim>\<open>chess_board_segmentation/img_process_original.ipynb\<close>. The notebook is Python 2
  (print statements, \<^verbatim>\<open>map\<close> returning a list, \<^verbatim>\<open>/\<close> on two ints being floor
  division). Floating-point numbers are modelled by the reals.
\<close>

subsection \<open>Data\<close>

text \<open>A line is the pair (distance, angle) of its polar form; a point is the pair (x, y).\<close>

type_synonym line = "real \<times> real"
type_synonym point = "real \<times> real"

text \<open>An image is the list of its rows, a row the list of its pixels.\<close>

type_synonym 'a image = "'a list list"

subsection \<open>\<^verbatim>\<open>hor_vert_lines\<close>\<close>

text \<open>
  \<^verbatim>\<open>
  def hor_vert_lines(lines):
      h = []
      v = []
      for distance, angle in lines:
          if angle < np.pi / 4 or angle > np.pi - np.pi / 4:
              v.append([distance, angle])
          else:
              h.append([distance, angle])
      return h, v
  \<close>
  The loop is a recursion over the input that carries the two lists built so far.
\<close>

fun hor_vert_loop :: "line list \<Rightarrow> line list \<Rightarrow> line list \<Rightarrow> line list \<times> line list" where
  "hor_vert_loop [] h v = (h, v)"
| "hor_vert_loop ((distance, angle) # lines) h v =
     (if angle < pi / 4 \<or> angle > pi - pi / 4
      then hor_vert_loop lines h (v @ [(distance, angle)])
      else hor_vert_loop lines (h @ [(distance, angle)]) v)"

definition hor_vert_lines :: "line list \<Rightarrow> line list \<times> line list" where
  "hor_vert_lines lines = hor_vert_loop lines [] []"

text \<open>The classification the specification words: vertical if the angle is below
  \<open>\<pi>/4\<close> or above \<open>3\<pi>/4\<close>.\<close>

definition is_vertical :: "line \<Rightarrow> bool" where
  "is_vertical l \<longleftrightarrow> snd l < pi / 4 \<or> snd l > 3 * pi / 4"

subsection \<open>\<^verbatim>\<open>split_board\<close>\<close>

text \<open>
  \<^verbatim>\<open>
  def split_board(img):
      arr = []
      sq_len = img.shape[0] / 8
      for i in range(8):
          for j in range(8):
              arr.append(img[i * sq_len : (i + 1) * sq_len, j * sq_len : (j + 1) * sq_len])
      return arr
  \<close>
  \<^verbatim>\<open>img.shape[0]\<close> is the number of rows. A slice \<^verbatim>\<open>xs[a:b]\<close> with
  \<open>0 \<le> a\<close> and \<open>0 \<le> b\<close> is clipped to the sequence, and is empty when \<open>b \<le> a\<close>.
\<close>

definition slice :: "nat \<Rightarrow> nat \<Rightarrow> 'a list \<Rightarrow> 'a list" where
  "slice a b xs = take (b - a) (drop a xs)"

definition crop :: "'a image \<Rightarrow> nat \<Rightarrow> nat \<Rightarrow> nat \<Rightarrow> nat \<Rightarrow> 'a image" where
  "crop img r0 r1 c0 c1 = map (slice c0 c1) (slice r0 r1 img)"

definition split_board :: "'a image \<Rightarrow> 'a image list" where
  "split_board img =
     (let sq_len = length img div 8
      in concat (map (\<lambda>i. map (\<lambda>j. crop img (i * sq_len) ((i + 1) * sq_len)
                                              (j * sq_len) ((j + 1) * sq_len))
                               [0..<8])
                     [0..<8]))"

text \<open>
  Reassembling: the blocks of one band are joined side by side (row \<open>r\<close> of the band is
  the concatenation of the rows \<open>r\<close> of its blocks), and the eight bands are stacked.
\<close>

definition hstack :: "'a image list \<Rightarrow> 'a image" where
  "hstack bs = (case bs of [] \<Rightarrow> []
                | b # _ \<Rightarrow> map (\<lambda>r. concat (map (\<lambda>b. b ! r) bs)) [0..<length b])"

definition reassemble :: "'a image list \<Rightarrow> 'a image" where
  "reassemble arr = concat (map (\<lambda>i. hstack (slice (8 * i) (8 * i + 8) arr)) [0..<8])"

text \<open>An image is \<open>L \<times> L\<close> when it has \<open>L\<close> rows of \<open>L\<close> pixels each.\<close>

definition square_image :: "nat \<Rightarrow> 'a image \<Rightarrow> bool" where
  "square_image L img \<longleftrightarrow> length img = L \<and> list_all (\<lambda>row. length row = L) img"

text \<open>A concrete board: the \<open>L \<times> L\<close> image whose pixel at row \<open>r\<close>, column \<open>c\<close> is
  \<open>L * r + c\<close>.\<close>

definition numbered_image :: "nat \<Rightarrow> nat image" where
  "numbered_image L = map (\<lambda>r. map (\<lambda>c. L * r + c) [0..<L]) [0..<L]"

subsection \<open>Failures\<close>

text \<open>
  The exceptions the modelled functions can raise: \<^verbatim>\<open>numpy.linalg.LinAlgError\<close>
  (\<^verbatim>\<open>numpy.linalg.solve\<close> on a singular matrix) and \<^verbatim>\<open>ValueError\<close>
  (\<^verbatim>\<open>argmin\<close> of an empty array; the input checks of
  \<^verbatim>\<open>scipy.spatial.distance.pdist\<close> and \<^verbatim>\<open>scipy.cluster.hierarchy.single\<close>).
  A function that can raise returns \<open>Inl\<close> of the exception, or \<open>Inr\<close> of its result.
\<close>

datatype error = LinAlgError | ValueError

subsection \<open>\<^verbatim>\<open>intersections\<close>\<close>

text \<open>
  \<^verbatim>\<open>numpy.linalg.solve(A, b)\<close> for a \<open>2 \<times> 2\<close> matrix \<open>A\<close>, given by its two rows: the
  solution \<open>x\<close> of \<open>A x = b\<close>, and \<^verbatim>\<open>LinAlgError\<close> when \<open>A\<close> is singular. This is the
  solver in exact arithmetic. The library works in floating point and raises only when
  a pivot of the factorisation is exactly zero after rounding: it does so on the rows
  \<open>(1, 0)\<close>, \<open>(1, 0)\<close> of two lines of angle 0, but for other parallel pairs it may return
  a point, far away, instead of raising.
\<close>

definition solve :: "(real \<times> real) \<times> (real \<times> real) \<Rightarrow> real \<times> real \<Rightarrow> error + point" where
  "solve A b =
     (case A of ((a11, a12), (a21, a22)) \<Rightarrow>
      case b of (b1, b2) \<Rightarrow>
        let det = a11 * a22 - a12 * a21
        in if det = 0 then Inl LinAlgError
           else Inr ((b1 * a22 - a12 * b2) / det, (a11 * b2 - a21 * b1) / det))"

text \<open>
  \<^verbatim>\<open>
  def intersections(h, v):
      points = []
      for d1, a1 in h:
          for d2, a2 in v:
              A = np.array([[np.cos(a1), np.sin(a1)], [np.cos(a2), np.sin(a2)]])
              b = np.array([d1, d2])
              point = np.linalg.solve(A, b)
              points.append(point)
      return np.array(points)
  \<close>
  The exception of \<^verbatim>\<open>solve\<close> is not caught, so it ends both loops.
\<close>

fun intersections_inner :: "real \<Rightarrow> real \<Rightarrow> line list \<Rightarrow> point list \<Rightarrow> error + point list" where
  "intersections_inner d1 a1 [] points = Inr points"
| "intersections_inner d1 a1 ((d2, a2) # v) points =
     (case solve ((cos a1, sin a1), (cos a2, sin a2)) (d1, d2) of
        Inl e \<Rightarrow> Inl e
      | Inr point \<Rightarrow> intersections_inner d1 a1 v (points @ [point]))"

fun intersections_outer :: "line list \<Rightarrow> line list \<Rightarrow> point list \<Rightarrow> error + point list" where
  "intersections_outer [] v points = Inr points"
| "intersections_outer ((d1, a1) # h) v points =
     (case intersections_inner d1 a1 v points of
        Inl e \<Rightarrow> Inl e
      | Inr points' \<Rightarrow> intersections_outer h v points')"

definition intersections :: "line list \<Rightarrow> line list \<Rightarrow> error + point list" where
  "intersections h v = intersections_outer h v []"

text \<open>
  The same two loops with \<^verbatim>\<open>numpy.linalg.solve\<close> taken as a parameter \<open>S\<close>: what the
  function does with the points and the exceptions of the solver, whatever the solver
  does on a given system, in floating point too. \<open>solve_pair S l1 l2\<close> is the call that
  the inner loop makes for the lines \<open>l1\<close> and \<open>l2\<close>.
\<close>

type_synonym solver = "(real \<times> real) \<times> (real \<times> real) \<Rightarrow> real \<times> real \<Rightarrow> error + point"

fun intersections_inner_by :: "solver \<Rightarrow> real \<Rightarrow> real \<Rightarrow> line list \<Rightarrow> point list \<Rightarrow> error + point list" where
  "intersections_inner_by S d1 a1 [] points = Inr points"
| "intersections_inner_by S d1 a1 ((d2, a2) # v) points =
     (case S ((cos a1, sin a1), (cos a2, sin a2)) (d1, d2) of
        Inl e \<Rightarrow> Inl e
      | Inr point \<Rightarrow> intersections_inner_by S d1 a1 v (points @ [point]))"

fun intersections_outer_by :: "solver \<Rightarrow> line list \<Rightarrow> line list \<Rightarrow> point list \<Rightarrow> error + point list" where
  "intersections_outer_by S [] v points = Inr points"
| "intersections_outer_by S ((d1, a1) # h) v points =
     (case intersections_inner_by S d1 a1 v points of
        Inl e \<Rightarrow> Inl e
      | Inr points' \<Rightarrow> intersections_outer_by S h v points')"

definition intersections_by :: "solver \<Rightarrow> line list \<Rightarrow> line list \<Rightarrow> error + point list" where
  "intersections_by S h v = intersections_outer_by S h v []"

definition solve_pair :: "solver \<Rightarrow> line \<Rightarrow> line \<Rightarrow> error + point" where
  "solve_pair S l1 l2 =
     S ((cos (snd l1), sin (snd l1)), (cos (snd l2), sin (snd l2))) (fst l1, fst l2)"

text \<open>
  Two lines in polar form are parallel when their angles differ by a multiple of \<open>\<pi>\<close>,
  that is, when the sine of the difference is zero. A point is on the line
  \<open>(\<rho>, \<theta>)\<close> when \<open>x cos \<theta> + y sin \<theta> = \<rho>\<close>.
\<close>

definition parallel :: "line \<Rightarrow> line \<Rightarrow> bool" where
  "parallel l1 l2 \<longleftrightarrow> sin (snd l1 - snd l2) = 0"

definition on_line :: "line \<Rightarrow> point \<Rightarrow> bool" where
  "on_line l p \<longleftrightarrow> fst p * cos (snd l) + snd p * sin (snd l) = fst l"

text \<open>The point where two lines that are not parallel meet, by Cramer's rule.\<close>

definition meet :: "line \<Rightarrow> line \<Rightarrow> point" where
  "meet l1 l2 =
     (let det = cos (snd l1) * sin (snd l2) - sin (snd l1) * cos (snd l2)
      in ((fst l1 * sin (snd l2) - sin (snd l1) * fst l2) / det,
          (cos (snd l1) * fst l2 - cos (snd l2) * fst l1) / det))"

subsection \<open>\<^verbatim>\<open>closest_point\<close>\<close>

text \<open>\<^verbatim>\<open>scipy.spatial.distance.euclidean\<close> on two points of the plane.\<close>

definition euclidean :: "point \<Rightarrow> point \<Rightarrow> real" where
  "euclidean u v = sqrt ((fst u - fst v)\<^sup>2 + (snd u - snd v)\<^sup>2)"

text \<open>\<^verbatim>\<open>ndarray.argmin\<close>: the index of the first occurrence of the minimum. It is
  called on non-empty arrays only (see \<open>closest_point\<close>).\<close>

fun argmin :: "real list \<Rightarrow> nat" where
  "argmin [] = 0"
| "argmin (d # ds) = (if list_all (\<lambda>e. d \<le> e) ds then 0 else Suc (argmin ds))"

text \<open>
  \<^verbatim>\<open>
  def closest_point(points, loc):
      dists = np.array(map(partial(spatial.distance.euclidean, loc), points))
      return points[dists.argmin()]
  \<close>
  On an empty list \<^verbatim>\<open>dists\<close> is the empty array and \<^verbatim>\<open>argmin\<close> raises
  \<^verbatim>\<open>ValueError\<close> (attempt to get argmin of an empty sequence).
\<close>

definition closest_point :: "point list \<Rightarrow> point \<Rightarrow> error + point" where
  "closest_point points loc =
     (let dists = map (euclidean loc) points
      in if dists = [] then Inl ValueError else Inr (points ! argmin dists))"

subsection \<open>\<^verbatim>\<open>find_corners\<close>\<close>

text \<open>
  \<^verbatim>\<open>
  def find_corners(points, img_dim):
      center_point = closest_point(points, (img_dim[0] / 2, img_dim[1] / 2))
      points.remove(center_point)
      center_adjacent_point = closest_point(points, center_point)
      points.append(center_point)
      grid_dist = spatial.distance.euclidean(np.array(center_point), np.array(center_adjacent_point))

      img_corners = [(0, 0), (0, img_dim[1]), img_dim, (img_dim[0], 0)]
      board_corners = []
      tolerance = 0.25 # bigger = more tolerance
      for img_corner in img_corners:
          while True:
              cand_board_corner = closest_point(points, img_corner)
              points.remove(cand_board_corner)
              cand_board_corner_adjacent = closest_point(points, cand_board_corner)
              corner_grid_dist = spatial.distance.euclidean(np.array(cand_board_corner), np.array(cand_board_corner_adjacent))
              if corner_grid_dist > (1 - tolerance) * grid_dist and corner_grid_dist < (1 + tolerance) * grid_dist:
                  points.append(cand_board_corner)
                  board_corners.append(cand_board_corner)
                  break
      return board_corners
  \<close>
  \<^verbatim>\<open>points\<close> is a Python list of pairs (what \<^verbatim>\<open>cluster\<close> returns); \<^verbatim>\<open>list.remove\<close>
  deletes the first element equal to its argument, which is \<open>remove1\<close>. The image
  dimensions are the ints that \<^verbatim>\<open>find_board\<close> passes, so \<^verbatim>\<open>img_dim[0] / 2\<close> is
  floor division. The list is mutated in place; the model passes it along.
\<close>

definition tolerance :: real where
  "tolerance = 0.25"

text \<open>The test of the \<^verbatim>\<open>if\<close> in the loop.\<close>

definition in_window :: "real \<Rightarrow> real \<Rightarrow> bool" where
  "in_window grid_dist corner_grid_dist \<longleftrightarrow>
     corner_grid_dist > (1 - tolerance) * grid_dist \<and> corner_grid_dist < (1 + tolerance) * grid_dist"

text \<open>The \<^verbatim>\<open>while True\<close> loop for one image corner. It returns the accepted candidate
  and the list \<^verbatim>\<open>points\<close> as the loop leaves it.\<close>

function corner_search :: "point list \<Rightarrow> point \<Rightarrow> real \<Rightarrow> error + (point \<times> point list)" where
  "corner_search points img_corner grid_dist =
     (case closest_point points img_corner of
        Inl e \<Rightarrow> Inl e
      | Inr cand_board_corner \<Rightarrow>
          (case closest_point (remove1 cand_board_corner points) cand_board_corner of
             Inl e \<Rightarrow> Inl e
           | Inr cand_board_corner_adjacent \<Rightarrow>
               if in_window grid_dist (euclidean cand_board_corner cand_board_corner_adjacent)
               then Inr (cand_board_corner, remove1 cand_board_corner points @ [cand_board_corner])
               else corner_search (remove1 cand_board_corner points) img_corner grid_dist))"
  by pat_completeness auto

lemma argmin_less: "ds \<noteq> [] \<Longrightarrow> argmin ds < length ds"
proof (induction ds)
  case Nil
  then show ?case by simp
next
  case (Cons d ds)
  then show ?case by (cases "ds = []") auto
qed

lemma closest_point_in: "closest_point points loc = Inr p \<Longrightarrow> p \<in> set points"
  using argmin_less [of "map (euclidean loc) points"]
  by (auto simp: closest_point_def Let_def split: if_splits)

termination corner_search
proof (relation "measure (\<lambda>(points, img_corner, grid_dist). length points)")
  show "wf (measure (\<lambda>(points, img_corner, grid_dist). length points))" by simp
next
  fix points :: "point list" and img_corner :: point and grid_dist :: real
    and cand adj :: point
  assume "closest_point points img_corner = Inr cand"
  then have "cand \<in> set points" by (rule closest_point_in)
  then have "cand \<in> set points" "0 < length points" by auto
  then show "((remove1 cand points, img_corner, grid_dist), (points, img_corner, grid_dist))
      \<in> measure (\<lambda>(points, img_corner, grid_dist). length points)"
    by (simp add: length_remove1)
qed

text \<open>The \<^verbatim>\<open>for\<close> loop over the image corners.\<close>

fun corners_loop :: "point list \<Rightarrow> real \<Rightarrow> point list \<Rightarrow> point list \<Rightarrow> error + point list" where
  "corners_loop points grid_dist [] board_corners = Inr board_corners"
| "corners_loop points grid_dist (img_corner # img_corners) board_corners =
     (case corner_search points img_corner grid_dist of
        Inl e \<Rightarrow> Inl e
      | Inr (cand_board_corner, points') \<Rightarrow>
          corners_loop points' grid_dist img_corners (board_corners @ [cand_board_corner]))"

text \<open>The first five lines: the grid distance, and \<^verbatim>\<open>points\<close> with the centre point
  moved to the end.\<close>

definition center_grid_dist :: "point list \<Rightarrow> int \<times> int \<Rightarrow> error + (real \<times> point list)" where
  "center_grid_dist points img_dim =
     (case closest_point points (of_int (fst img_dim div 2), of_int (snd img_dim div 2)) of
        Inl e \<Rightarrow> Inl e
      | Inr center_point \<Rightarrow>
          (case closest_point (remove1 center_point points) center_point of
             Inl e \<Rightarrow> Inl e
           | Inr center_adjacent_point \<Rightarrow>
               Inr (euclidean center_point center_adjacent_point,
                    remove1 center_point points @ [center_point])))"

definition img_corners :: "int \<times> int \<Rightarrow> point list" where
  "img_corners img_dim =
     [(0, 0), (0, of_int (snd img_dim)), (of_int (fst img_dim), of_int (snd img_dim)),
      (of_int (fst img_dim), 0)]"

definition find_corners :: "point list \<Rightarrow> int \<times> int \<Rightarrow> error + point list" where
  "find_corners points img_dim =
     (case center_grid_dist points img_dim of
        Inl e \<Rightarrow> Inl e
      | Inr (grid_dist, points') \<Rightarrow> corners_loop points' grid_dist (img_corners img_dim) [])"

declare corner_search.simps [simp del]





text \<open>The perfect \<open>9 \<times> 9\<close> grid of spacing \<open>s\<close> with its first point at the origin.\<close>

definition grid :: "real \<Rightarrow> point list" where
  "grid s = concat (map (\<lambda>i. map (\<lambda>j. (real i * s, real j * s)) [0..<9]) [0..<9])"

subsection \<open>\<^verbatim>\<open>cluster\<close>\<close>

text \<open>
  \<^verbatim>\<open>
  def cluster(points, max_dist=50):
      Y = spatial.distance.pdist(points)
      Z = clstr.hierarchy.single(Y)
      T = clstr.hierarchy.fcluster(Z, max_dist, 'distance')
      clusters = defaultdict(list)
      for i in range(len(T)):
          clusters[T[i]].append(points[i])
      clusters = clusters.values()
      clusters = map(lambda arr: (np.mean(np.array(arr)[:,0]), np.mean(np.array(arr)[:,1])), clusters)
      return clusters
  \<close>
  The three library functions are modelled after the documentation of SciPy.
\<close>

text \<open>
  \<^verbatim>\<open>scipy.spatial.distance.pdist\<close>: the condensed matrix of the pairwise Euclidean
  distances, kept here by rows: row \<open>i\<close> holds the distances from point \<open>i\<close> to the points
  \<open>i + 1, \<dots>, n - 1\<close>. The input must be a two-dimensional array, which the empty input
  is not (\<^verbatim>\<open>ValueError\<close>). For a single point the matrix has no entry.
\<close>

definition pdist :: "point list \<Rightarrow> error + real list list" where
  "pdist points =
     (if points = [] then Inl ValueError
      else Inr (map (\<lambda>i. map (\<lambda>j. euclidean (points ! i) (points ! j)) [Suc i..<length points])
                    [0..<length points]))"

text \<open>The entry of the condensed matrix for two different observations.\<close>

definition entry :: "real list list \<Rightarrow> nat \<Rightarrow> nat \<Rightarrow> real" where
  "entry Y i j = (if i < j then Y ! i ! (j - Suc i) else Y ! j ! (i - Suc j))"

text \<open>
  The linkage matrix encodes a binary tree: each row joins two clusters, original
  observations or clusters of earlier rows, at a distance. The model keeps the tree.
\<close>

datatype dendrogram = Leaf nat | Node dendrogram dendrogram real

fun leaves :: "dendrogram \<Rightarrow> nat list" where
  "leaves (Leaf i) = [i]"
| "leaves (Node l r h) = leaves l @ leaves r"

text \<open>Single linkage: the distance of two clusters is the least distance between an
  observation of the one and an observation of the other.\<close>

definition link :: "real list list \<Rightarrow> dendrogram \<Rightarrow> dendrogram \<Rightarrow> real" where
  "link Y u v = Min (set (concat (map (\<lambda>i. map (\<lambda>j. entry Y i j) (leaves v)) (leaves u))))"

fun pairs :: "'a list \<Rightarrow> ('a \<times> 'a) list" where
  "pairs [] = []"
| "pairs (x # xs) = map (Pair x) xs @ pairs xs"

text \<open>One iteration of the agglomeration: the two clusters at the least distance are
  taken out of the forest and their union is added to it.\<close>

definition merge_step :: "real list list \<Rightarrow> dendrogram list \<Rightarrow> dendrogram list" where
  "merge_step Y ts =
     (let ps = pairs ts;
          (u, v) = ps ! argmin (map (\<lambda>(u, v). link Y u v) ps)
      in remove1 u (remove1 v ts) @ [Node u v (link Y u v)])"

fun linkage_loop :: "nat \<Rightarrow> real list list \<Rightarrow> dendrogram list \<Rightarrow> dendrogram list" where
  "linkage_loop 0 Y ts = ts"
| "linkage_loop (Suc k) Y ts = linkage_loop k Y (merge_step Y ts)"

text \<open>
  \<^verbatim>\<open>scipy.cluster.hierarchy.single\<close>: \<open>n - 1\<close> iterations from the forest of the \<open>n\<close>
  observations. The number of observations cannot be determined on an empty distance
  matrix (\<^verbatim>\<open>ValueError\<close>).
\<close>

definition single :: "real list list \<Rightarrow> error + dendrogram" where
  "single Y =
     (if concat Y = [] then Inl ValueError
      else Inr (last (linkage_loop (length Y - 1) Y (map Leaf [0..<length Y]))))"

text \<open>
  \<^verbatim>\<open>scipy.cluster.hierarchy.fcluster\<close> with the criterion \<^verbatim>\<open>'distance'\<close>: a node
  below which no merge is at a distance above \<open>t\<close> is one flat cluster; the flat
  clusters are numbered from 1, and \<open>T[i]\<close> is the number of the flat cluster of
  observation \<open>i\<close>. SciPy does not specify which flat cluster gets which number; the
  model numbers them from left to right, where the library numbers the flat clusters
  below the inner children of a node before its leaf children, and the library may join
  clusters at equal distances in another order. The numbers, and with them the order of
  the centres that \<^verbatim>\<open>cluster\<close> returns, can differ from the library's; the partition
  into flat clusters does not.
\<close>

fun maxdist :: "dendrogram \<Rightarrow> real" where
  "maxdist (Leaf i) = 0"
| "maxdist (Node l r h) = max h (max (maxdist l) (maxdist r))"

fun flat_clusters :: "real \<Rightarrow> dendrogram \<Rightarrow> nat list list" where
  "flat_clusters t (Leaf i) = [[i]]"
| "flat_clusters t (Node l r h) =
     (if maxdist (Node l r h) \<le> t then [leaves (Node l r h)]
      else flat_clusters t l @ flat_clusters t r)"

fun cluster_index :: "nat list list \<Rightarrow> nat \<Rightarrow> nat" where
  "cluster_index [] i = 0"
| "cluster_index (c # cs) i = (if i \<in> set c then 0 else Suc (cluster_index cs i))"

definition fcluster :: "dendrogram \<Rightarrow> real \<Rightarrow> nat list" where
  "fcluster Z t =
     map (\<lambda>i. Suc (cluster_index (flat_clusters t Z) i)) [0..<length (leaves Z)]"

text \<open>The first three lines of \<^verbatim>\<open>cluster\<close>.\<close>

definition cluster_labels :: "point list \<Rightarrow> real \<Rightarrow> error + nat list" where
  "cluster_labels points max_dist =
     (case pdist points of
        Inl e \<Rightarrow> Inl e
      | Inr Y \<Rightarrow> (case single Y of
                   Inl e \<Rightarrow> Inl e
                 | Inr Z \<Rightarrow> Inr (fcluster Z max_dist)))"

text \<open>
  The dictionary is a map from the labels to the lists of points. \<^verbatim>\<open>clusters.values()\<close>
  lists the values in the order of the keys in the hash table, which for the small
  positive ints that the labels are is the ascending order.
\<close>

definition group_points :: "nat list \<Rightarrow> point list \<Rightarrow> (nat \<rightharpoonup> point list)" where
  "group_points T points =
     fold (\<lambda>i clusters.
             clusters(T ! i \<mapsto> (case clusters (T ! i) of None \<Rightarrow> [] | Some arr \<Rightarrow> arr) @ [points ! i]))
          [0..<length T] Map.empty"

definition dict_values :: "nat list \<Rightarrow> (nat \<rightharpoonup> point list) \<Rightarrow> point list list" where
  "dict_values T clusters = List.map_filter clusters (sort (remdups T))"

text \<open>\<^verbatim>\<open>numpy.mean\<close> of a non-empty array.\<close>

definition mean :: "real list \<Rightarrow> real" where
  "mean xs = sum_list xs / real (length xs)"

definition cluster :: "point list \<Rightarrow> real \<Rightarrow> error + point list" where
  "cluster points max_dist =
     (case cluster_labels points max_dist of
        Inl e \<Rightarrow> Inl e
      | Inr T \<Rightarrow>
          Inr (map (\<lambda>arr. (mean (map fst arr), mean (map snd arr)))
                   (dict_values T (group_points T points))))"

text \<open>
  The graph of the specification: two observations are joined when their points are
  at a distance of at most \<open>max_dist\<close>. Two observations are connected by a chain when
  they are related by its reflexive transitive closure.
\<close>

definition close_pairs :: "point list \<Rightarrow> real \<Rightarrow> (nat \<times> nat) set" where
  "close_pairs points max_dist =
     {(i, j). i < length points \<and> j < length points
              \<and> euclidean (points ! i) (points ! j) \<le> max_dist}"

text \<open>The points that carry the label \<open>l\<close>, in the order of the input.\<close>

definition members :: "nat list \<Rightarrow> point list \<Rightarrow> nat \<Rightarrow> point list" where
  "members T points l = map (\<lambda>i. points ! i) (filter (\<lambda>i. T ! i = l) [0..<length T])"

subsection \<open>Invariants of the agglomeration\<close>

text \<open>
  A dendrogram is well formed when every node joins two disjoint clusters at their
  single-linkage distance and no merge below a node is at a greater distance than the
  node itself.
\<close>

fun wf_dendrogram :: "real list list \<Rightarrow> dendrogram \<Rightarrow> bool" where
  "wf_dendrogram Y (Leaf i) = True"
| "wf_dendrogram Y (Node l r h) =
     (wf_dendrogram Y l \<and> wf_dendrogram Y r \<and> set (leaves l) \<inter> set (leaves r) = {}
      \<and> h = link Y l r \<and> maxdist l \<le> h \<and> maxdist r \<le> h)"

text \<open>
  The forest during the agglomeration: its trees are well formed and partition the
  observations \<open>0, \<dots>, n - 1\<close>, and no merge made so far is at a greater distance than
  two clusters of the forest are from each other.
\<close>

definition forest_inv :: "real list list \<Rightarrow> nat \<Rightarrow> dendrogram list \<Rightarrow> bool" where
  "forest_inv Y n ts \<longleftrightarrow>
     distinct ts
     \<and> (\<Union>u\<in>set ts. set (leaves u)) = {0..<n}
     \<and> (\<forall>u\<in>set ts. \<forall>v\<in>set ts. u \<noteq> v \<longrightarrow> set (leaves u) \<inter> set (leaves v) = {})
     \<and> (\<forall>u\<in>set ts. wf_dendrogram Y u)
     \<and> (\<forall>u\<in>set ts. \<forall>v\<in>set ts. \<forall>w\<in>set ts. u \<noteq> v \<longrightarrow> maxdist w \<le> link Y u v)"

section \<open>Line Classifier\<close>

lemma hor_vert_loop_filter:
  "hor_vert_loop lines h v =
     (h @ filter (\<lambda>l. \<not> is_vertical l) lines, v @ filter is_vertical lines)"
proof (induction lines h v rule: hor_vert_loop.induct)
  case (1 h v)
  show ?case by simp
next
  case (2 distance angle lines h v)
  have eq: "pi - pi / 4 = 3 * pi / 4" by simp
  show ?case
  proof (cases "angle < pi / 4 \<or> angle > pi - pi / 4")
    case True
    then have "is_vertical (distance, angle)"
      unfolding is_vertical_def eq by simp
    with 2 True show ?thesis by simp
  next
    case False
    then have "\<not> is_vertical (distance, angle)"
      unfolding is_vertical_def eq by simp
    with 2 False show ?thesis by simp
  qed
qed

text \<open>
  Claim C9. For every input line sequence, \<open>hor_vert_lines\<close> returns as H the lines that
  are not vertical and as V the lines that are vertical (angle below \<open>\<pi>/4\<close> or above
  \<open>3\<pi>/4\<close>), each in the order of the input; so every line is in exactly one of the two
  and the two sizes add up to the size of the input.
\<close>

theorem hor_vert_lines_partition:
  "fst (hor_vert_lines lines) = filter (\<lambda>l. \<not> is_vertical l) lines
   \<and> snd (hor_vert_lines lines) = filter is_vertical lines
   \<and> length (fst (hor_vert_lines lines)) + length (snd (hor_vert_lines lines)) = length lines"
proof -
  have "hor_vert_lines lines = (filter (\<lambda>l. \<not> is_vertical l) lines, filter is_vertical lines)"
    unfolding hor_vert_lines_def by (simp add: hor_vert_loop_filter)
  moreover have "length (filter (\<lambda>l. \<not> is_vertical l) lines) + length (filter is_vertical lines)
      = length lines"
    using sum_length_filter_compl [of is_vertical lines] by simp
  ultimately show ?thesis by simp
qed

section \<open>Board Splitter\<close>

lemma concat_slices: "concat (map (\<lambda>j. slice (j * S) ((j + 1) * S) xs) [0..<k]) = take (k * S) xs"
proof (induction k)
  case 0 show ?case by simp
next
  case (Suc k)
  have "take (k * S) xs @ take S (drop (k * S) xs) = take (k * S + S) xs"
    by (simp add: take_add)
  with Suc show ?case by (simp add: slice_def add.commute)
qed

lemma length_concat_grid: "length (concat (map (\<lambda>i. map (f i) [0..<n]) [0..<m])) = m * n"
  by (induction m) simp_all

lemma nth_concat_grid:
  "i < m \<Longrightarrow> j < n \<Longrightarrow> concat (map (\<lambda>i. map (f i) [0..<n]) [0..<m]) ! (n * i + j) = f i j"
proof (induction m)
  case 0 then show ?case by simp
next
  case (Suc m)
  let ?pre = "concat (map (\<lambda>i. map (f i) [0..<n]) [0..<m])"
  have len: "length ?pre = m * n" by (rule length_concat_grid)
  show ?case
  proof (cases "i < m")
    case True
    then have "n * i + j < m * n"
    proof -
      from True have "Suc i \<le> m" by simp
      then have "n * Suc i \<le> n * m" by (rule mult_le_mono2)
      with Suc.prems(2) show ?thesis by (simp add: mult.commute)
    qed
    with Suc.IH [OF True Suc.prems(2)] len show ?thesis by (simp add: nth_append)
  next
    case False
    with Suc.prems(1) have "i = m" by simp
    with Suc.prems(2) len show ?thesis by (simp add: nth_append mult.commute)
  qed
qed

lemma slice_concat_grid:
  assumes "i < m"
  shows "slice (n * i) (n * i + n) (concat (map (\<lambda>i. map (f i) [0..<n]) [0..<m])) = map (f i) [0..<n]"
proof (rule nth_equalityI)
  let ?g = "concat (map (\<lambda>i. map (f i) [0..<n]) [0..<m])"
  from assms have "Suc i \<le> m" by simp
  then have "n * Suc i \<le> n * m" by (rule mult_le_mono2)
  then have le: "n * i + n \<le> m * n" by (simp add: mult.commute)
  then show "length (slice (n * i) (n * i + n) ?g) = length (map (f i) [0..<n])"
    by (simp add: slice_def length_concat_grid)
  fix k assume "k < length (slice (n * i) (n * i + n) ?g)"
  then have k: "k < n" by (simp add: slice_def)
  from le have "n * i \<le> m * n" by arith
  then have "n * i \<le> length ?g" by (simp only: length_concat_grid)
  with k have "slice (n * i) (n * i + n) ?g ! k = ?g ! (n * i + k)"
    by (simp add: slice_def)
  also have "\<dots> = f i k" using assms k by (rule nth_concat_grid)
  finally show "slice (n * i) (n * i + n) ?g ! k = map (f i) [0..<n] ! k" using k by simp
qed

lemma split_board_length: "length (split_board img) = 64"
  by (simp add: split_board_def Let_def length_concat_grid)

lemma split_board_nth:
  "i < 8 \<Longrightarrow> j < 8 \<Longrightarrow> split_board img ! (8 * i + j) =
     crop img (i * (length img div 8)) ((i + 1) * (length img div 8))
              (j * (length img div 8)) ((j + 1) * (length img div 8))"
  unfolding split_board_def Let_def by (rule nth_concat_grid)


lemma hstack_band:
  "hstack (map (\<lambda>j. map (slice (j * S) ((j + 1) * S)) rows) [0..<8]) = map (take (8 * S)) rows"
proof -
  have up: "[0..<8] = 0 # [1..<8]" by (simp add: upt_rec)
  have "hstack (map (\<lambda>j. map (slice (j * S) ((j + 1) * S)) rows) [0..<8])
      = map (\<lambda>r. concat (map (\<lambda>b. b ! r) (map (\<lambda>j. map (slice (j * S) ((j + 1) * S)) rows) [0..<8])))
          [0..<length rows]"
    unfolding hstack_def by (subst (1) up) simp
  also have "\<dots> = map (\<lambda>r. take (8 * S) (rows ! r)) [0..<length rows]"
  proof (rule map_cong [OF refl])
    fix r assume "r \<in> set [0..<length rows]"
    then have r: "r < length rows" by simp
    have "concat (map (\<lambda>j. slice (j * S) ((j + 1) * S) (rows ! r)) [0..<8]) = take (8 * S) (rows ! r)"
      by (rule concat_slices)
    with r show "concat (map (\<lambda>b. b ! r) (map (\<lambda>j. map (slice (j * S) ((j + 1) * S)) rows) [0..<8]))
        = take (8 * S) (rows ! r)"
      by (simp add: comp_def)
  qed
  also have "\<dots> = map (take (8 * S)) (map (\<lambda>r. rows ! r) [0..<length rows])" by simp
  also have "\<dots> = map (take (8 * S)) rows" by (simp only: map_nth)
  finally show ?thesis .
qed

lemma reassemble_split_board:
  "reassemble (split_board img) =
     map (take (8 * (length img div 8))) (take (8 * (length img div 8)) img)"
proof -
  define S where "S = length img div 8"
  have band: "hstack (slice (8 * i) (8 * i + 8) (split_board img))
       = map (take (8 * S)) (slice (i * S) ((i + 1) * S) img)"
    if i: "i < 8" for i
  proof -
    have "slice (8 * i) (8 * i + 8) (split_board img)
        = map (\<lambda>j. crop img (i * S) ((i + 1) * S) (j * S) ((j + 1) * S)) [0..<8]"
      unfolding split_board_def Let_def S_def using i by (rule slice_concat_grid)
    then show ?thesis using hstack_band [of S "slice (i * S) ((i + 1) * S) img"]
      by (simp add: crop_def)
  qed
  have "reassemble (split_board img)
      = concat (map (\<lambda>i. map (take (8 * S)) (slice (i * S) ((i + 1) * S) img)) [0..<8])"
    unfolding reassemble_def
    by (rule arg_cong [where f = concat], rule map_cong [OF refl]) (simp add: band)
  also have "\<dots> = map (take (8 * S)) (concat (map (\<lambda>i. slice (i * S) ((i + 1) * S) img) [0..<8]))"
    by (simp only: map_concat map_map comp_def)
  also have "concat (map (\<lambda>i. slice (i * S) ((i + 1) * S) img) [0..<8]) = take (8 * S) img"
    by (rule concat_slices)
  finally show ?thesis unfolding S_def .
qed

lemma crop_nth:
  assumes "r0 + r < length img" "r0 + r < r1" "c0 + c < length (img ! (r0 + r))" "c0 + c < c1"
  shows "crop img r0 r1 c0 c1 ! r ! c = img ! (r0 + r) ! (c0 + c)"
proof -
  from assms have r: "r < r1 - r0" "r < length img - r0" "r0 \<le> length img" by simp_all
  then have "crop img r0 r1 c0 c1 ! r = slice c0 c1 (img ! (r0 + r))"
    by (simp add: crop_def slice_def)
  moreover from assms have "c < c1 - c0" "c0 \<le> length (img ! (r0 + r))" by simp_all
  ultimately show ?thesis by (simp add: slice_def)
qed

lemma crop_dims:
  assumes "r1 \<le> length img" "list_all (\<lambda>row. c1 \<le> length row) img"
  shows "length (crop img r0 r1 c0 c1) = r1 - r0 \<and> list_all (\<lambda>row. length row = c1 - c0) (crop img r0 r1 c0 c1)"
  using assms unfolding crop_def slice_def list_all_iff
  by (auto dest!: in_set_takeD in_set_dropD)

lemma block_bound:
  assumes "i < (8::nat)" "r < s" "s = L div 8"
  shows "i * s + r < L" "i * s + r < (i + 1) * s" "(i + 1) * s \<le> L"
proof -
  from assms(1) have "i + 1 \<le> 8" by simp
  then have "(i + 1) * s \<le> 8 * s" by (rule mult_le_mono1)
  also have "8 * s \<le> L" using assms(3) by simp
  finally show le: "(i + 1) * s \<le> L" .
  show lt: "i * s + r < (i + 1) * s" using assms(2) by simp
  from lt le show "i * s + r < L" by (rule less_le_trans)
qed

lemma split_board_blocks:
  assumes sq: "square_image L img" and s: "s = L div 8"
  shows "length (split_board img) = 64"
    and "list_all (square_image s) (split_board img)"
    and "\<forall>i<8. \<forall>j<8. \<forall>r<s. \<forall>c<s.
           split_board img ! (8 * i + j) ! r ! c = img ! (i * s + r) ! (j * s + c)"
proof -
  from sq have len: "length img = L" and rows: "list_all (\<lambda>row. length row = L) img"
    by (simp_all add: square_image_def)
  from s len have s': "length img div 8 = s" by simp
  show "length (split_board img) = 64" by (rule split_board_length)
  have nth: "split_board img ! (8 * i + j) = crop img (i * s) ((i + 1) * s) (j * s) ((j + 1) * s)"
    if "i < 8" "j < 8" for i j
    using split_board_nth [OF that, of img] by (simp only: s')
  show "list_all (square_image s) (split_board img)"
    unfolding list_all_length
  proof (intro allI impI)
    fix k assume "k < length (split_board img)"
    then have k: "k < 64" by (simp add: split_board_length)
    define i j where "i = k div 8" and "j = k mod 8"
    from k have ij: "i < 8" "j < 8" "k = 8 * i + j" by (simp_all add: i_def j_def)
    have r1: "(i + 1) * s \<le> length img"
      using block_bound(3) [OF ij(1) _ s] len by (cases "s = 0") auto
    have c1: "(j + 1) * s \<le> L"
      using block_bound(3) [OF ij(2) _ s] by (cases "s = 0") auto
    then have "list_all (\<lambda>row. (j + 1) * s \<le> length row) img"
      using rows by (simp add: list_all_iff)
    from crop_dims [OF r1 this, of "i * s" "j * s"]
    show "square_image s (split_board img ! k)"
      unfolding ij(3) nth [OF ij(1,2)] square_image_def by simp
  qed
  show "\<forall>i<8. \<forall>j<8. \<forall>r<s. \<forall>c<s.
           split_board img ! (8 * i + j) ! r ! c = img ! (i * s + r) ! (j * s + c)"
  proof (intro allI impI)
    fix i j r c assume ij: "i < (8::nat)" "j < (8::nat)" and rc: "r < s" "c < s"
    note bi = block_bound [OF ij(1) rc(1) s] and bj = block_bound [OF ij(2) rc(2) s]
    have r: "i * s + r < length img" using bi(1) len by simp
    then have "length (img ! (i * s + r)) = L" using rows by (simp add: list_all_length)
    then have c: "j * s + c < length (img ! (i * s + r))" using bj(1) by simp
    from r bi(2) c bj(2) have "crop img (i * s) ((i + 1) * s) (j * s) ((j + 1) * s) ! r ! c
        = img ! (i * s + r) ! (j * s + c)"
      by (rule crop_nth)
    then show "split_board img ! (8 * i + j) ! r ! c = img ! (i * s + r) ! (j * s + c)"
      by (simp only: nth [OF ij])
  qed
qed

lemma square_image_numbered: "square_image L (numbered_image L)"
  by (simp add: square_image_def numbered_image_def list_all_iff)

text \<open>
  Claim C7. For every \<open>L \<times> L\<close> board image with \<open>L = 8 * S\<close>, \<open>split_board\<close> returns
  exactly 64 sub-images, each \<open>S \<times> S\<close>; the sub-image at index \<open>8 * i + j\<close> (outer loop
  over the rows \<open>i\<close>, inner loop over the columns \<open>j\<close>) holds exactly the pixels of rows
  \<open>i * S ..< (i + 1) * S\<close> and columns \<open>j * S ..< (j + 1) * S\<close>, so the sub-images do not
  overlap; and reassembling the 64 sub-images in that order gives back the image.
\<close>

theorem split_board_roundtrip:
  assumes "square_image (8 * S) img"
  shows "length (split_board img) = 64
       \<and> list_all (square_image S) (split_board img)
       \<and> (\<forall>i<8. \<forall>j<8. \<forall>r<S. \<forall>c<S.
            split_board img ! (8 * i + j) ! r ! c = img ! (i * S + r) ! (j * S + c))
       \<and> reassemble (split_board img) = img"
proof -
  have S: "S = (8 * S) div 8" by simp
  from assms have len: "length img = 8 * S" and rows: "list_all (\<lambda>row. length row = 8 * S) img"
    by (simp_all add: square_image_def)
  have "map (take (8 * S)) img = img"
    using rows by (simp add: list_all_iff map_idI)
  then have "reassemble (split_board img) = img"
    using len by (simp add: reassemble_split_board)
  with split_board_blocks [OF assms S] show ?thesis by simp
qed

theorem split_board_roundtrip_witness:
  "square_image (8 * 2) (numbered_image 16)
   \<and> length (split_board (numbered_image 16)) = 64
   \<and> list_all (square_image 2) (split_board (numbered_image 16))
   \<and> split_board (numbered_image 16) ! (8 * 1 + 2) ! 1 ! 0 = numbered_image 16 ! (1 * 2 + 1) ! (2 * 2 + 0)
   \<and> reassemble (split_board (numbered_image 16)) = numbered_image 16"
proof -
  have h: "square_image (8 * 2) (numbered_image 16)"
    using square_image_numbered [of 16] by simp
  note t = split_board_roundtrip [OF h]
  from t have px: "i < 8 \<Longrightarrow> j < 8 \<Longrightarrow> r < 2 \<Longrightarrow> c < 2 \<Longrightarrow>
      split_board (numbered_image 16) ! (8 * i + j) ! r ! c
        = numbered_image 16 ! (i * 2 + r) ! (j * 2 + c)" for i j r c
    by blast
  have "split_board (numbered_image 16) ! (8 * 1 + 2) ! 1 ! 0
      = numbered_image 16 ! (1 * 2 + 1) ! (2 * 2 + 0)"
    by (rule px) simp_all
  with t h show ?thesis by blast
qed

text \<open>
  Claim C8 says that \<open>split_board\<close> fails with InvalidDimensions when the side is not a
  positive multiple of 8. The function has no check and no failing branch: on the
  \<open>9 \<times> 9\<close> image it returns the 64 crops of one pixel that tile the top-left
  \<open>8 \<times> 8\<close> pixels.
\<close>

theorem split_board_side_9_counterexample:
  "square_image 9 (numbered_image 9) \<and> \<not> 8 dvd (9::nat)
   \<and> split_board (numbered_image 9) = map (\<lambda>k. [[9 * (k div 8) + k mod 8]]) [0..<64]"
  by code_simp

text \<open>
  Claim C8, amended. For every \<open>L \<times> L\<close> image, whatever \<open>L\<close> is, \<open>split_board\<close> returns
  64 sub-images of side \<open>L div 8\<close>, the one at index \<open>8 * i + j\<close> holding the pixels of rows
  \<open>i * (L div 8) ..< (i + 1) * (L div 8)\<close> and the columns likewise; reassembled, they are
  the top-left square of side \<open>8 * (L div 8)\<close> of the image, which is not the whole image
  when \<open>L\<close> is not a multiple of 8.
\<close>

theorem split_board_any_side:
  assumes "square_image L img"
  shows "length (split_board img) = 64
       \<and> list_all (square_image (L div 8)) (split_board img)
       \<and> (\<forall>i<8. \<forall>j<8. \<forall>r<L div 8. \<forall>c<L div 8.
            split_board img ! (8 * i + j) ! r ! c = img ! (i * (L div 8) + r) ! (j * (L div 8) + c))
       \<and> reassemble (split_board img) = crop img 0 (8 * (L div 8)) 0 (8 * (L div 8))
       \<and> (\<not> 8 dvd L \<longrightarrow> reassemble (split_board img) \<noteq> img)"
proof -
  from assms have len: "length img = L" by (simp add: square_image_def)
  have re: "reassemble (split_board img) = crop img 0 (8 * (L div 8)) 0 (8 * (L div 8))"
    by (simp add: reassemble_split_board crop_def slice_def len)
  have "reassemble (split_board img) \<noteq> img" if "\<not> 8 dvd L"
  proof
    assume "reassemble (split_board img) = img"
    then have "length (reassemble (split_board img)) = L" using len by simp
    then have "8 * (L div 8) = L" by (simp add: reassemble_split_board len)
    with that show False by (metis dvd_triv_left)
  qed
  with re split_board_blocks [OF assms refl] show ?thesis by simp
qed

theorem split_board_any_side_witness:
  "square_image 9 (numbered_image 9)
   \<and> length (split_board (numbered_image 9)) = 64
   \<and> list_all (square_image (9 div 8)) (split_board (numbered_image 9))
   \<and> split_board (numbered_image 9) ! (8 * 7 + 7) ! 0 ! 0 = numbered_image 9 ! (7 * (9 div 8) + 0) ! (7 * (9 div 8) + 0)
   \<and> reassemble (split_board (numbered_image 9)) = crop (numbered_image 9) 0 (8 * (9 div 8)) 0 (8 * (9 div 8))
   \<and> reassemble (split_board (numbered_image 9)) \<noteq> numbered_image 9"
proof -
  have h: "square_image 9 (numbered_image 9)" by (rule square_image_numbered)
  note t = split_board_any_side [OF h]
  from t have px: "i < 8 \<Longrightarrow> j < 8 \<Longrightarrow> r < 9 div 8 \<Longrightarrow> c < 9 div 8 \<Longrightarrow>
      split_board (numbered_image 9) ! (8 * i + j) ! r ! c
        = numbered_image 9 ! (i * (9 div 8) + r) ! (j * (9 div 8) + c)" for i j r c
    by blast
  have "split_board (numbered_image 9) ! (8 * 7 + 7) ! 0 ! 0
      = numbered_image 9 ! (7 * (9 div 8) + 0) ! (7 * (9 div 8) + 0)"
    by (rule px) simp_all
  moreover have "\<not> 8 dvd (9::nat)" by simp
  ultimately show ?thesis using t h by blast
qed

section \<open>Intersection Engine\<close>

lemma parallel_iff_multiple_of_pi:
  "parallel l1 l2 \<longleftrightarrow> (\<exists>k::int. snd l1 - snd l2 = of_int k * pi)"
  unfolding parallel_def by (rule sin_zero_iff_int2)

lemma parallel_det: "parallel (d1, a1) (d2, a2) \<longleftrightarrow> cos a1 * sin a2 - sin a1 * cos a2 = 0"
  unfolding parallel_def by (auto simp: sin_diff)

lemma solve_lines:
  "solve ((cos a1, sin a1), (cos a2, sin a2)) (d1, d2) =
     (if parallel (d1, a1) (d2, a2) then Inl LinAlgError else Inr (meet (d1, a1) (d2, a2)))"
  by (simp add: solve_def parallel_det meet_def Let_def)

lemma meet_on_lines:
  assumes "\<not> parallel l1 l2"
  shows "on_line l1 (meet l1 l2)" and "on_line l2 (meet l1 l2)"
proof -
  obtain d1 a1 d2 a2 where l: "l1 = (d1, a1)" "l2 = (d2, a2)" by (cases l1, cases l2) auto
  define det where "det = cos a1 * sin a2 - sin a1 * cos a2"
  from assms have det: "det \<noteq> 0" by (simp add: l parallel_det det_def)
  have m: "meet (d1, a1) (d2, a2) = ((d1 * sin a2 - sin a1 * d2) / det, (cos a1 * d2 - cos a2 * d1) / det)"
    by (simp add: meet_def det_def Let_def)
  have "(d1 * sin a2 - sin a1 * d2) * cos a1 + (cos a1 * d2 - cos a2 * d1) * sin a1 = d1 * det"
    by (simp add: det_def algebra_simps)
  then have "((d1 * sin a2 - sin a1 * d2) / det) * cos a1 + ((cos a1 * d2 - cos a2 * d1) / det) * sin a1 = d1"
    using det by (simp add: field_simps)
  then show "on_line l1 (meet l1 l2)" by (simp add: on_line_def m l)
  have "(d1 * sin a2 - sin a1 * d2) * cos a2 + (cos a1 * d2 - cos a2 * d1) * sin a2 = d2 * det"
    by (simp add: det_def algebra_simps)
  then have "((d1 * sin a2 - sin a1 * d2) / det) * cos a2 + ((cos a1 * d2 - cos a2 * d1) / det) * sin a2 = d2"
    using det by (simp add: field_simps)
  then show "on_line l2 (meet l1 l2)" by (simp add: on_line_def m l)
qed

lemma intersections_inner_eq:
  "intersections_inner d1 a1 v points =
     (if \<exists>l\<in>set v. parallel (d1, a1) l then Inl LinAlgError
      else Inr (points @ map (meet (d1, a1)) v))"
proof (induction d1 a1 v points rule: intersections_inner.induct)
  case (1 d1 a1 points)
  show ?case by simp
next
  case (2 d1 a1 d2 a2 v points)
  show ?case
  proof (cases "parallel (d1, a1) (d2, a2)")
    case True
    then show ?thesis by (simp add: solve_lines)
  next
    case False
    then have "solve ((cos a1, sin a1), (cos a2, sin a2)) (d1, d2) = Inr (meet (d1, a1) (d2, a2))"
      by (simp add: solve_lines)
    with 2 False show ?thesis by simp
  qed
qed

lemma intersections_outer_eq:
  "intersections_outer h v points =
     (if \<exists>l1\<in>set h. \<exists>l2\<in>set v. parallel l1 l2 then Inl LinAlgError
      else Inr (points @ concat (map (\<lambda>l1. map (meet l1) v) h)))"
proof (induction h v points rule: intersections_outer.induct)
  case (1 v points)
  show ?case by simp
next
  case (2 d1 a1 h v points)
  show ?case
  proof (cases "\<exists>l\<in>set v. parallel (d1, a1) l")
    case True
    then show ?thesis by (auto simp: intersections_inner_eq)
  next
    case False
    then have "intersections_inner d1 a1 v points = Inr (points @ map (meet (d1, a1)) v)"
      by (simp add: intersections_inner_eq)
    with 2 False show ?thesis by simp
  qed
qed

lemma nth_concat_map_map:
  "i < length xs \<Longrightarrow> j < length ys \<Longrightarrow>
   concat (map (\<lambda>x. map (f x) ys) xs) ! (i * length ys + j) = f (xs ! i) (ys ! j)"
proof (induction xs arbitrary: i)
  case Nil
  then show ?case by simp
next
  case (Cons x xs)
  show ?case
  proof (cases i)
    case 0
    with Cons.prems show ?thesis by (simp add: nth_append)
  next
    case (Suc k)
    with Cons.prems have k: "k < length xs" by simp
    have "Suc k * length ys + j = length (map (f x) ys) + (k * length ys + j)" by simp
    then have "concat (map (\<lambda>x. map (f x) ys) (x # xs)) ! (Suc k * length ys + j)
        = concat (map (\<lambda>x. map (f x) ys) xs) ! (k * length ys + j)"
      by (simp only: list.map concat.simps nth_append_length_plus)
    with Cons.IH [OF k Cons.prems(2)] Suc show ?thesis by simp
  qed
qed

lemma length_concat_map_map:
  "length (concat (map (\<lambda>x. map (f x) ys) xs)) = length xs * length ys"
  by (induction xs) simp_all

text \<open>
  Claim C3. For every list \<open>h\<close> of \<open>m\<close> lines and list \<open>v\<close> of \<open>n\<close> lines in which no pair
  \<open>(l1, l2)\<close> with \<open>l1\<close> in \<open>h\<close> and \<open>l2\<close> in \<open>v\<close> is parallel, \<open>intersections\<close> returns
  exactly \<open>m * n\<close> points, the point at index \<open>i * n + j\<close> (\<open>h\<close>-major, \<open>v\<close>-minor) lying on
  both the \<open>i\<close>-th line of \<open>h\<close> and the \<open>j\<close>-th line of \<open>v\<close>.
\<close>

theorem intersections_all_pairs:
  assumes "\<forall>l1\<in>set h. \<forall>l2\<in>set v. \<not> parallel l1 l2"
  shows "\<exists>points. intersections h v = Inr points
           \<and> length points = length h * length v
           \<and> (\<forall>i<length h. \<forall>j<length v.
                on_line (h ! i) (points ! (i * length v + j))
              \<and> on_line (v ! j) (points ! (i * length v + j)))"
proof -
  let ?points = "concat (map (\<lambda>l1. map (meet l1) v) h)"
  have "intersections h v = Inr ?points"
    using assms by (simp add: intersections_def intersections_outer_eq)
  moreover have "length ?points = length h * length v" by (rule length_concat_map_map)
  moreover have "on_line (h ! i) (?points ! (i * length v + j))
               \<and> on_line (v ! j) (?points ! (i * length v + j))"
    if "i < length h" "j < length v" for i j
  proof -
    from that assms have "\<not> parallel (h ! i) (v ! j)" by simp
    then show ?thesis using meet_on_lines by (simp add: nth_concat_map_map [OF that])
  qed
  ultimately show ?thesis by blast
qed

theorem intersections_all_pairs_witness:
  "\<exists>points. intersections [(1, pi / 2), (2, pi / 2)] [(3, 0), (4, 0), (5, 0)] = Inr points
      \<and> length points = 6
      \<and> on_line (2, pi / 2) (points ! 5) \<and> on_line (5, 0) (points ! 5)"
proof -
  let ?h = "[(1, pi / 2), (2, pi / 2)] :: line list"
  let ?v = "[(3, 0), (4, 0), (5, 0)] :: line list"
  have np: "\<forall>l1\<in>set ?h. \<forall>l2\<in>set ?v. \<not> parallel l1 l2"
    by (simp add: parallel_def)
  from intersections_all_pairs [OF np] obtain points where
    p: "intersections ?h ?v = Inr points" "length points = length ?h * length ?v"
      "\<forall>i<length ?h. \<forall>j<length ?v.
          on_line (?h ! i) (points ! (i * length ?v + j))
        \<and> on_line (?v ! j) (points ! (i * length ?v + j))"
    by blast
  from p(3) have q: "i < length ?h \<Longrightarrow> j < length ?v \<Longrightarrow>
      on_line (?h ! i) (points ! (i * length ?v + j))
    \<and> on_line (?v ! j) (points ! (i * length ?v + j))" for i j
    by blast
  have "on_line (?h ! 1) (points ! (1 * length ?v + 2))
      \<and> on_line (?v ! 2) (points ! (1 * length ?v + 2))"
    by (rule q) simp_all
  then have "on_line (2, pi / 2) (points ! 5) \<and> on_line (5, 0) (points ! 5)"
    by (simp add: eval_nat_numeral)
  with p(1,2) show ?thesis by simp
qed

text \<open>
  Claim C4 says that a parallel pair is dropped and the other pairs are still returned.
  The function has no handler around \<^verbatim>\<open>solve\<close>: with the lines \<open>(1, 0)\<close> and \<open>(2, 0)\<close>
  parallel, the exception reaches the caller and the intersection of \<open>(1, 0)\<close> with
  \<open>(3, \<pi>/2)\<close> is not returned.
\<close>

theorem intersections_parallel_counterexample:
  "parallel (1, 0) (2, 0) \<and> \<not> parallel (1, 0) (3, pi / 2)
   \<and> intersections [(1, 0)] [(2, 0), (3, pi / 2)] = Inl LinAlgError"
  by (simp add: parallel_def intersections_def solve_def)

lemma intersections_inner_by_solve:
  "intersections_inner_by solve d1 a1 v points = intersections_inner d1 a1 v points"
  by (induction d1 a1 v points rule: intersections_inner.induct) (simp_all split: sum.splits)

lemma intersections_outer_by_solve:
  "intersections_outer_by solve h v points = intersections_outer h v points"
  by (induction h v points rule: intersections_outer.induct)
     (simp_all add: intersections_inner_by_solve split: sum.splits)

lemma intersections_inner_by_eq:
  "(if \<exists>l2\<in>set v. isl (solve_pair S (d1, a1) l2)
    then \<exists>l2\<in>set v. isl (solve_pair S (d1, a1) l2)
           \<and> intersections_inner_by S d1 a1 v points = Inl (projl (solve_pair S (d1, a1) l2))
    else intersections_inner_by S d1 a1 v points
           = Inr (points @ map (\<lambda>l2. projr (solve_pair S (d1, a1) l2)) v))"
proof (induction S d1 a1 v points rule: intersections_inner_by.induct)
  case (1 S d1 a1 points)
  show ?case by simp
next
  case (2 S d1 a1 d2 a2 v points)
  show ?case
  proof (cases "solve_pair S (d1, a1) (d2, a2)")
    case (Inl e)
    then have "intersections_inner_by S d1 a1 ((d2, a2) # v) points = Inl e"
      by (simp add: solve_pair_def)
    with Inl show ?thesis by auto
  next
    case (Inr p)
    then have s: "S ((cos a1, sin a1), (cos a2, sin a2)) (d1, d2) = Inr p"
      by (simp add: solve_pair_def)
    then have step: "intersections_inner_by S d1 a1 ((d2, a2) # v) points
        = intersections_inner_by S d1 a1 v (points @ [p])"
      by simp
    from "2.IH" [OF s] Inr show ?thesis unfolding step by (auto split: if_splits)
  qed
qed

lemma intersections_outer_by_eq:
  "(if \<exists>l1\<in>set h. \<exists>l2\<in>set v. isl (solve_pair S l1 l2)
    then \<exists>l1\<in>set h. \<exists>l2\<in>set v. isl (solve_pair S l1 l2)
           \<and> intersections_outer_by S h v points = Inl (projl (solve_pair S l1 l2))
    else intersections_outer_by S h v points
           = Inr (points @ concat (map (\<lambda>l1. map (\<lambda>l2. projr (solve_pair S l1 l2)) v) h)))"
proof (induction S h v points rule: intersections_outer_by.induct)
  case (1 S v points)
  show ?case by simp
next
  case (2 S d1 a1 h v points)
  note inner = intersections_inner_by_eq [of v S d1 a1 points]
  show ?case
  proof (cases "\<exists>l2\<in>set v. isl (solve_pair S (d1, a1) l2)")
    case True
    with inner obtain l2 where l2: "l2 \<in> set v" "isl (solve_pair S (d1, a1) l2)"
      "intersections_inner_by S d1 a1 v points = Inl (projl (solve_pair S (d1, a1) l2))"
      by auto
    then have "intersections_outer_by S ((d1, a1) # h) v points
        = Inl (projl (solve_pair S (d1, a1) l2))"
      by simp
    with l2(1,2) show ?thesis by auto
  next
    case False
    with inner have i: "intersections_inner_by S d1 a1 v points
        = Inr (points @ map (\<lambda>l2. projr (solve_pair S (d1, a1) l2)) v)"
      by simp
    then have step: "intersections_outer_by S ((d1, a1) # h) v points
        = intersections_outer_by S h v (points @ map (\<lambda>l2. projr (solve_pair S (d1, a1) l2)) v)"
      by simp
    from "2.IH" [OF i] False show ?thesis unfolding step by (auto split: if_splits)
  qed
qed

text \<open>
  Claim C4, amended. \<open>intersections\<close> drops no pair, whatever the solver does on each
  system. If the solver raises on some pair, as \<^verbatim>\<open>numpy.linalg.solve\<close> does on the
  exactly singular system of two lines of angle 0, the exception of one such pair reaches
  the caller and no points are returned; if it raises on no pair, one point is returned
  for every pair, in order, parallel or not.
\<close>

theorem intersections_drops_no_pair:
  "intersections h v = intersections_by solve h v
   \<and> (if \<exists>l1\<in>set h. \<exists>l2\<in>set v. isl (solve_pair S l1 l2)
      then \<exists>l1\<in>set h. \<exists>l2\<in>set v. isl (solve_pair S l1 l2)
             \<and> intersections_by S h v = Inl (projl (solve_pair S l1 l2))
      else intersections_by S h v
             = Inr (concat (map (\<lambda>l1. map (\<lambda>l2. projr (solve_pair S l1 l2)) v) h)))"
  using intersections_outer_by_eq [of h v S "[]"]
  by (simp add: intersections_def intersections_by_def intersections_outer_by_solve)

theorem intersections_drops_no_pair_witness:
  "intersections [(1, pi / 2), (2, 0)] [(3, 0)] = intersections_by solve [(1, pi / 2), (2, 0)] [(3, 0)]
   \<and> intersections_by solve [(1, pi / 2), (2, 0)] [(3, 0)] = Inl LinAlgError
   \<and> intersections_by (\<lambda>A b. Inr (0, 0)) [(2, 0)] [(3, 0)] = Inr [(0, 0)]"
proof -
  have a: "intersections_by solve [(1, pi / 2), (2, 0)] [(3, 0)] = Inl LinAlgError"
    using intersections_drops_no_pair [of "[(1, pi / 2), (2, 0)]" "[(3, 0)]" solve]
    by (auto simp: solve_pair_def solve_def split: if_splits)
  have b: "intersections_by (\<lambda>A b. Inr (0, 0)) [(2, 0)] [(3, 0)] = Inr [(0, 0)]"
    using intersections_drops_no_pair [of "[(2, 0)]" "[(3, 0)]" "\<lambda>A b. Inr (0, 0)"]
    by (simp add: solve_pair_def)
  from intersections_drops_no_pair [of "[(1, pi / 2), (2, 0)]" "[(3, 0)]" solve] a b
  show ?thesis by simp
qed

section \<open>Corner Finder\<close>

lemma closest_point_Nil: "closest_point [] loc = Inl ValueError"
  by (simp add: closest_point_def)


lemma closest_point_nonempty: "points \<noteq> [] \<Longrightarrow> \<exists>p. closest_point points loc = Inr p"
  by (simp add: closest_point_def)

lemma set_remove1_append: "x \<in> set xs \<Longrightarrow> set (remove1 x xs @ [x]) = set xs"
proof (induction xs)
  case Nil
  then show ?case by simp
next
  case (Cons a xs)
  then show ?case by (cases "x = a") auto
qed

lemma corner_search_result:
  "corner_search points img_corner grid_dist = Inr (cand, points') \<Longrightarrow>
     cand \<in> set points \<and> set points' \<subseteq> set points"
proof (induction points img_corner grid_dist rule: corner_search.induct)
  case (1 points img_corner grid_dist)
  from "1.prems" obtain c where c: "closest_point points img_corner = Inr c"
    by (subst (asm) corner_search.simps) (auto split: sum.splits)
  then have cin: "c \<in> set points" by (rule closest_point_in)
  from "1.prems" c obtain a where a: "closest_point (remove1 c points) c = Inr a"
    by (subst (asm) corner_search.simps) (auto split: sum.splits)
  show ?case
  proof (cases "in_window grid_dist (euclidean c a)")
    case True
    with "1.prems" c a have "cand = c" "points' = remove1 c points @ [c]"
      by (subst (asm) corner_search.simps, simp)+
    with cin show ?thesis by (simp only: set_remove1_append) simp
  next
    case False
    with "1.prems" c a have "corner_search (remove1 c points) img_corner grid_dist = Inr (cand, points')"
      by (subst (asm) corner_search.simps) simp
    from "1.IH" [OF c a False this] show ?thesis
      by (auto dest: set_remove1_subset [THEN subsetD])
  qed
qed

lemma corners_loop_result:
  "corners_loop points grid_dist cs board_corners = Inr res \<Longrightarrow>
     length res = length board_corners + length cs \<and> set res \<subseteq> set board_corners \<union> set points"
proof (induction points grid_dist cs board_corners rule: corners_loop.induct)
  case (1 points grid_dist board_corners)
  then show ?case by auto
next
  case (2 points grid_dist img_corner img_corners board_corners)
  from "2.prems" obtain cand points' where
    s: "corner_search points img_corner grid_dist = Inr (cand, points')"
    by (auto split: sum.splits)
  with "2.prems" have "corners_loop points' grid_dist img_corners (board_corners @ [cand]) = Inr res"
    by simp
  from "2.IH" [OF s refl this] corner_search_result [OF s] show ?case by auto
qed

lemma center_grid_dist_result:
  "center_grid_dist points img_dim = Inr (grid_dist, points') \<Longrightarrow> set points' = set points"
proof -
  assume a: "center_grid_dist points img_dim = Inr (grid_dist, points')"
  then obtain c where c: "closest_point points (of_int (fst img_dim div 2), of_int (snd img_dim div 2)) = Inr c"
    by (auto simp: center_grid_dist_def split: sum.splits)
  with a have "points' = remove1 c points @ [c]"
    by (auto simp: center_grid_dist_def split: sum.splits)
  with closest_point_in [OF c] show ?thesis by (simp only: set_remove1_append)
qed

text \<open>
  Claim C6 says that the four corners returned are mutually distinct. An accepted corner
  is appended to the working list again, and nothing keeps the search for a later image
  corner from accepting it a second time: on three points in a row the first point is
  returned for two image corners, and so is the last.
\<close>

theorem find_corners_repeated_corner_counterexample:
  "find_corners [(4, 5), (5, 5), (6, 5)] (10, 10) = Inr [(4, 5), (4, 5), (6, 5), (6, 5)]
   \<and> \<not> distinct [(4, 5), (4, 5), (6, 5), (6, 5) :: point]"
  by (simp add: find_corners_def center_grid_dist_def corner_search.simps closest_point_def
      euclidean_def img_corners_def in_window_def tolerance_def)

text \<open>
  Claim C6, amended. For every input on which \<open>find_corners\<close> succeeds, it returns exactly
  4 points, each of them one of the input points.
\<close>

theorem find_corners_four_input_points:
  assumes "find_corners points img_dim = Inr board_corners"
  shows "length board_corners = 4 \<and> set board_corners \<subseteq> set points"
proof -
  from assms obtain grid_dist points' where
    c: "center_grid_dist points img_dim = Inr (grid_dist, points')"
    by (auto simp: find_corners_def split: sum.splits)
  with assms have "corners_loop points' grid_dist (img_corners img_dim) [] = Inr board_corners"
    by (simp add: find_corners_def)
  from corners_loop_result [OF this] center_grid_dist_result [OF c]
  show ?thesis by (simp add: img_corners_def)
qed

theorem find_corners_four_input_points_witness:
  "find_corners [(0, 0), (0, 10), (10, 10), (10, 0)] (10, 10)
     = Inr [(0, 0), (0, 10), (10, 10), (10, 0)]
   \<and> length [(0, 0), (0, 10), (10, 10), (10, 0) :: point] = 4
   \<and> set [(0, 0), (0, 10), (10, 10), (10, 0)]
      \<subseteq> set [(0, 0), (0, 10), (10, 10), (10, 0) :: point]"
proof -
  have h: "find_corners [(0, 0), (0, 10), (10, 10), (10, 0)] (10, 10)
      = Inr [(0, 0), (0, 10), (10, 10), (10, 0)]"
    by (simp add: find_corners_def center_grid_dist_def corner_search.simps closest_point_def
        euclidean_def img_corners_def in_window_def tolerance_def)
  from find_corners_four_input_points [OF h] h show ?thesis by simp
qed

lemma length_remove1_Suc: "x \<in> set xs \<Longrightarrow> Suc (length (remove1 x xs)) = length xs"
  by (induction xs) auto











lemma grid_mem: "p \<in> set (grid s) \<longleftrightarrow> (\<exists>i<9. \<exists>j<9. p = (real i * s, real j * s))"
proof -
  have "set (grid s) = (\<Union>i\<in>{0..<9}. (\<lambda>j. (real i * s, real j * s)) ` {0..<9})"
    by (simp only: grid_def set_concat set_map set_upt image_image)
  also have "p \<in> \<dots> \<longleftrightarrow> (\<exists>i<9. \<exists>j<9. p = (real i * s, real j * s))"
    by (simp only: UN_iff image_iff Bex_def atLeastLessThan_iff) blast
  finally show ?thesis .
qed

lemma grid_memI: "i < 9 \<Longrightarrow> j < 9 \<Longrightarrow> (real i * s, real j * s) \<in> set (grid s)"
  unfolding grid_mem by blast

lemma euclidean_grid:
  "euclidean (real i * s, real j * s) (real i' * s, real j' * s)
     = \<bar>s\<bar> * sqrt ((real i - real i')\<^sup>2 + (real j - real j')\<^sup>2)"
proof -
  have "(real i * s - real i' * s)\<^sup>2 + (real j * s - real j' * s)\<^sup>2
      = s\<^sup>2 * ((real i - real i')\<^sup>2 + (real j - real j')\<^sup>2)"
    by (simp add: algebra_simps power2_eq_square)
  then show ?thesis by (simp add: euclidean_def real_sqrt_mult)
qed

lemma sq_diff_nat_ge_1: "i \<noteq> i' \<Longrightarrow> 1 \<le> (real i - real i')\<^sup>2"
proof -
  assume "i \<noteq> i'"
  then have "1 \<le> \<bar>int i - int i'\<bar>" by simp
  then have "1 \<le> \<bar>real i - real i'\<bar>"
    by (metis of_int_1_le_iff of_int_abs of_int_diff of_int_of_nat_eq)
  then have "1\<^sup>2 \<le> \<bar>real i - real i'\<bar>\<^sup>2" by (rule power_mono) simp
  then show ?thesis by simp
qed

lemma grid_dist_ge:
  assumes "0 < s" "p \<in> set (grid s)" "q \<in> set (grid s)" "p \<noteq> q"
  shows "s \<le> euclidean p q"
proof -
  from assms(2) obtain i j where p: "p = (real i * s, real j * s)" by (auto simp: grid_mem)
  from assms(3) obtain i' j' where q: "q = (real i' * s, real j' * s)" by (auto simp: grid_mem)
  from assms(4) p q have "i \<noteq> i' \<or> j \<noteq> j'" by auto
  then have "1 \<le> (real i - real i')\<^sup>2 + (real j - real j')\<^sup>2"
  proof
    assume "i \<noteq> i'"
    from sq_diff_nat_ge_1 [OF this] show ?thesis
      by (smt (verit) zero_le_power2)
  next
    assume "j \<noteq> j'"
    from sq_diff_nat_ge_1 [OF this] show ?thesis
      by (smt (verit) zero_le_power2)
  qed
  then have "1 \<le> sqrt ((real i - real i')\<^sup>2 + (real j - real j')\<^sup>2)" by simp
  then have "s * 1 \<le> s * sqrt ((real i - real i')\<^sup>2 + (real j - real j')\<^sup>2)"
    using assms(1) by (simp only: mult_le_cancel_left_pos)
  then show ?thesis using assms(1) by (simp add: p q euclidean_grid)
qed

lemma grid_neighbour:
  assumes "0 < s" "p \<in> set (grid s)"
  shows "\<exists>q\<in>set (grid s). q \<noteq> p \<and> euclidean p q = s"
proof -
  from assms(2) obtain i j where ij: "i < 9" "j < 9" and p: "p = (real i * s, real j * s)"
    by (auto simp: grid_mem)
  define i' where "i' = (if i < 8 then i + 1 else 7)"
  have i': "i' < 9" "(real i - real i')\<^sup>2 = 1" "i' \<noteq> i"
  proof -
    show "i' < 9" "i' \<noteq> i" using ij(1) by (auto simp: i'_def)
    show "(real i - real i')\<^sup>2 = 1"
    proof (cases "i < 8")
      case True
      then show ?thesis by (simp add: i'_def)
    next
      case False
      with ij(1) have "i = 8" by simp
      then show ?thesis by (simp add: i'_def)
    qed
  qed
  let ?q = "(real i' * s, real j * s)"
  have "?q \<in> set (grid s)" using i'(1) ij(2) by (auto simp: grid_mem)
  moreover have "?q \<noteq> p" using i'(3) assms(1) by (simp add: p)
  moreover have "euclidean p ?q = s"
    using assms(1) by (simp add: p euclidean_grid i'(2))
  ultimately show ?thesis by blast
qed

lemma argmin_le: "e \<in> set ds \<Longrightarrow> ds ! argmin ds \<le> e"
proof (induction ds arbitrary: e)
  case Nil
  then show ?case by simp
next
  case (Cons d ds)
  show ?case
  proof (cases "list_all (\<lambda>e. d \<le> e) ds")
    case True
    with Cons.prems show ?thesis by (auto simp: list_all_iff)
  next
    case False
    then obtain e' where e': "e' \<in> set ds" "\<not> d \<le> e'" by (auto simp: list_all_iff)
    from Cons.IH [OF e'(1)] e'(2) have "ds ! argmin ds \<le> d" by simp
    with Cons.IH Cons.prems False show ?thesis by auto
  qed
qed

lemma closest_point_le:
  assumes "closest_point points loc = Inr p" "q \<in> set points"
  shows "euclidean loc p \<le> euclidean loc q"
proof -
  let ?ds = "map (euclidean loc) points"
  from assms(1) have ne: "points \<noteq> []" and p: "p = points ! argmin ?ds"
    by (auto simp: closest_point_def Let_def split: if_splits)
  from ne have "argmin ?ds < length points" using argmin_less [of ?ds] by simp
  then have "euclidean loc p = ?ds ! argmin ?ds" by (simp add: p)
  also have "\<dots> \<le> euclidean loc q" using assms(2) by (intro argmin_le) simp
  finally show ?thesis .
qed

lemma euclidean_self: "euclidean p p = 0"
  by (simp add: euclidean_def)

lemma euclidean_zero: "euclidean p q = 0 \<Longrightarrow> q = p"
  by (cases p, cases q) (simp add: euclidean_def sum_power2_eq_zero_iff)

lemma closest_point_member:
  assumes "loc \<in> set points"
  shows "closest_point points loc = Inr loc"
proof -
  from assms have "points \<noteq> []" by auto
  then obtain p where p: "closest_point points loc = Inr p" using closest_point_nonempty by blast
  from closest_point_le [OF p assms] have "euclidean loc p \<le> 0" by (simp add: euclidean_self)
  moreover have "0 \<le> euclidean loc p" by (simp add: euclidean_def)
  ultimately have "euclidean loc p = 0" by simp
  then have "p = loc" by (rule euclidean_zero)
  with p show ?thesis by simp
qed

lemma grid_nearest:
  assumes s: "0 < s" and p: "p \<in> set (grid s)" and ws: "set ws = set (grid s) - {p}"
  shows "\<exists>q. closest_point ws p = Inr q \<and> euclidean p q = s"
proof -
  from grid_neighbour [OF s p] obtain n where
    n: "n \<in> set (grid s)" "n \<noteq> p" "euclidean p n = s" by blast
  then have nin: "n \<in> set ws" by (simp add: ws)
  then have "ws \<noteq> []" by auto
  then obtain q where q: "closest_point ws p = Inr q" using closest_point_nonempty by blast
  from closest_point_in [OF q] have qin: "q \<in> set (grid s)" "p \<noteq> q" by (auto simp: ws)
  from closest_point_le [OF q nin] n(3) have "euclidean p q \<le> s" by simp
  moreover from grid_dist_ge [OF s p qin] have "s \<le> euclidean p q" .
  ultimately show ?thesis using q by simp
qed

lemma in_window_self: "0 < s \<Longrightarrow> in_window s s"
  by (simp add: in_window_def tolerance_def)

lemma corner_search_grid:
  assumes s: "0 < s" and d: "distinct ws" and ws: "set ws = set (grid s)"
    and c: "c \<in> set (grid s)"
  shows "\<exists>ws'. corner_search ws c s = Inr (c, ws') \<and> distinct ws' \<and> set ws' = set (grid s)"
proof -
  from c ws have cin: "c \<in> set ws" by simp
  then have cp: "closest_point ws c = Inr c" by (rule closest_point_member)
  have "set (remove1 c ws) = set (grid s) - {c}" using d ws by simp
  from grid_nearest [OF s c this] obtain q where
    q: "closest_point (remove1 c ws) c = Inr q" "euclidean c q = s" by blast
  have "corner_search ws c s = Inr (c, remove1 c ws @ [c])"
    using cp q in_window_self [OF s] by (subst corner_search.simps) simp
  moreover have "distinct (remove1 c ws @ [c])" using d by simp
  moreover have "set (remove1 c ws @ [c]) = set (grid s)"
    using cin ws by (simp only: set_remove1_append)
  ultimately show ?thesis by blast
qed

lemma center_grid_dist_grid:
  assumes s: "0 < s" and d: "distinct ws" and ws: "set ws = set (grid s)"
  shows "\<exists>ws'. center_grid_dist ws img_dim = Inr (s, ws') \<and> distinct ws' \<and> set ws' = set (grid s)"
proof -
  let ?loc = "(real_of_int (fst img_dim div 2), real_of_int (snd img_dim div 2))"
  have "(0, 0) \<in> set (grid s)" using grid_memI [of 0 0 s] by simp
  then have "ws \<noteq> []" using ws by auto
  then obtain cp where cp: "closest_point ws ?loc = Inr cp" using closest_point_nonempty by blast
  from closest_point_in [OF cp] have cin: "cp \<in> set ws" .
  then have cg: "cp \<in> set (grid s)" by (simp add: ws)
  have "set (remove1 cp ws) = set (grid s) - {cp}" using d ws by simp
  from grid_nearest [OF s cg this] obtain q where
    q: "closest_point (remove1 cp ws) cp = Inr q" "euclidean cp q = s" by blast
  have "center_grid_dist ws img_dim = Inr (s, remove1 cp ws @ [cp])"
    using cp q by (simp add: center_grid_dist_def)
  moreover have "distinct (remove1 cp ws @ [cp])" using d by simp
  moreover have "set (remove1 cp ws @ [cp]) = set (grid s)"
    using cin ws by (simp only: set_remove1_append)
  ultimately show ?thesis by blast
qed

text \<open>
  Claim C1. For a perfect \<open>9 \<times> 9\<close> grid of 81 points with uniform spacing \<open>L / 8\<close>,
  given in any order, and the image dimensions \<open>(L, L)\<close> of its bounding box,
  \<open>find_corners\<close> returns exactly the four outermost grid points, in the order top-left
  \<open>(0, 0)\<close>, bottom-left \<open>(0, L)\<close>, bottom-right \<open>(L, L)\<close>, top-right \<open>(L, 0)\<close>
  (\<open>x\<close> to the right, \<open>y\<close> downwards).
\<close>

theorem find_corners_perfect_grid:
  assumes L: "0 < L" and d: "distinct points" and g: "set points = set (grid (of_int L / 8))"
  shows "find_corners points (L, L)
       = Inr [(0, 0), (0, of_int L), (of_int L, of_int L), (of_int L, 0)]"
proof -
  define s :: real where "s = of_int L / 8"
  have s: "0 < s" using L by (simp add: s_def)
  have L8: "real_of_int L = real 8 * s" by (simp add: s_def)
  have c1: "(0, 0) \<in> set (grid s)"
    using grid_memI [of 0 0 s] by simp
  have c2: "(0, real_of_int L) \<in> set (grid s)"
    using grid_memI [of 0 8 s] by (simp add: L8)
  have c3: "(real_of_int L, real_of_int L) \<in> set (grid s)"
    using grid_memI [of 8 8 s] by (simp add: L8)
  have c4: "(real_of_int L, 0) \<in> set (grid s)"
    using grid_memI [of 8 0 s] by (simp add: L8)
  from center_grid_dist_grid [OF s d g [folded s_def], of "(L, L)"] obtain ws0 where
    w0: "center_grid_dist points (L, L) = Inr (s, ws0)" "distinct ws0" "set ws0 = set (grid s)"
    by blast
  from corner_search_grid [OF s w0(2,3) c1] obtain ws1 where
    w1: "corner_search ws0 (0, 0) s = Inr ((0, 0), ws1)" "distinct ws1" "set ws1 = set (grid s)"
    by blast
  from corner_search_grid [OF s w1(2,3) c2] obtain ws2 where
    w2: "corner_search ws1 (0, real_of_int L) s = Inr ((0, real_of_int L), ws2)"
      "distinct ws2" "set ws2 = set (grid s)"
    by blast
  from corner_search_grid [OF s w2(2,3) c3] obtain ws3 where
    w3: "corner_search ws2 (real_of_int L, real_of_int L) s
           = Inr ((real_of_int L, real_of_int L), ws3)"
      "distinct ws3" "set ws3 = set (grid s)"
    by blast
  from corner_search_grid [OF s w3(2,3) c4] obtain ws4 where
    w4: "corner_search ws3 (real_of_int L, 0) s = Inr ((real_of_int L, 0), ws4)"
    by blast
  show ?thesis
    by (simp add: find_corners_def w0(1) img_corners_def w1(1) w2(1) w3(1) w4)
qed

theorem find_corners_perfect_grid_witness:
  "find_corners (rev (grid 1)) (8, 8) = Inr [(0, 0), (0, 8), (8, 8), (8, 0)]"
proof -
  have "distinct (grid 1)" by (simp add: grid_def upt_rec)
  then have d: "distinct (rev (grid 1))" by simp
  have g: "set (rev (grid 1)) = set (grid (of_int 8 / 8))" by simp
  from find_corners_perfect_grid [OF _ d g] show ?thesis by simp
qed

section \<open>Point Clusterer\<close>

subsection \<open>Single linkage\<close>

lemma entry_sym: "i \<noteq> j \<Longrightarrow> entry Y i j = entry Y j i"
  by (auto simp: entry_def)

lemma leaves_nonempty: "leaves u \<noteq> []"
  by (induction u) auto

lemma link_set:
  "set (concat (map (\<lambda>i. map (\<lambda>j. entry Y i j) (leaves v)) (leaves u)))
     = (\<lambda>(i, j). entry Y i j) ` (set (leaves u) \<times> set (leaves v))"
  by (auto simp: image_iff)

lemma link_ge_iff:
  "x \<le> link Y u v \<longleftrightarrow> (\<forall>i\<in>set (leaves u). \<forall>j\<in>set (leaves v). x \<le> entry Y i j)"
proof -
  let ?S = "(\<lambda>(i, j). entry Y i j) ` (set (leaves u) \<times> set (leaves v))"
  have "finite ?S" by simp
  moreover have "?S \<noteq> {}" using leaves_nonempty [of u] leaves_nonempty [of v] by simp
  ultimately have "x \<le> Min ?S \<longleftrightarrow> (\<forall>a\<in>?S. x \<le> a)" by (rule Min_ge_iff)
  then show ?thesis unfolding link_def link_set by auto
qed

lemma link_le: "i \<in> set (leaves u) \<Longrightarrow> j \<in> set (leaves v) \<Longrightarrow> link Y u v \<le> entry Y i j"
  using link_ge_iff [of "link Y u v" Y u v] by simp

lemma link_attained: "\<exists>i\<in>set (leaves u). \<exists>j\<in>set (leaves v). link Y u v = entry Y i j"
proof -
  let ?S = "(\<lambda>(i, j). entry Y i j) ` (set (leaves u) \<times> set (leaves v))"
  have "finite ?S" by simp
  moreover have "?S \<noteq> {}" using leaves_nonempty [of u] leaves_nonempty [of v] by simp
  ultimately have "Min ?S \<in> ?S" by (rule Min_in)
  then show ?thesis unfolding link_def link_set by auto
qed

lemma link_sym:
  assumes "set (leaves u) \<inter> set (leaves v) = {}"
  shows "link Y u v = link Y v u"
proof (rule antisym)
  have ne: "i \<noteq> j" if "i \<in> set (leaves u)" "j \<in> set (leaves v)" for i j
    using that assms by auto
  show "link Y u v \<le> link Y v u"
    unfolding link_ge_iff
  proof (intro ballI)
    fix j i assume "j \<in> set (leaves v)" "i \<in> set (leaves u)"
    then show "link Y u v \<le> entry Y j i"
      using link_le [of i u j v Y] entry_sym [OF ne, of i j Y] by simp
  qed
  show "link Y v u \<le> link Y u v"
    unfolding link_ge_iff
  proof (intro ballI)
    fix i j assume "i \<in> set (leaves u)" "j \<in> set (leaves v)"
    then show "link Y v u \<le> entry Y i j"
      using link_le [of j v i u Y] entry_sym [OF ne, of i j Y] by simp
  qed
qed

text \<open>Pairs of a list.\<close>

lemma set_pairs_subset: "(x, y) \<in> set (pairs xs) \<Longrightarrow> x \<in> set xs \<and> y \<in> set xs"
  by (induction xs) auto

lemma pairs_distinct: "distinct xs \<Longrightarrow> (x, y) \<in> set (pairs xs) \<Longrightarrow> x \<noteq> y"
  by (induction xs) (auto dest: set_pairs_subset)

lemma pairs_total:
  "x \<in> set xs \<Longrightarrow> y \<in> set xs \<Longrightarrow> x \<noteq> y \<Longrightarrow> (x, y) \<in> set (pairs xs) \<or> (y, x) \<in> set (pairs xs)"
  by (induction xs) auto

lemma pairs_nonempty: "2 \<le> length xs \<Longrightarrow> pairs xs \<noteq> []"
  by (cases xs; cases "tl xs") auto

lemma merge_step_inv:
  assumes inv: "forest_inv Y n ts" and len: "2 \<le> length ts"
  shows "forest_inv Y n (merge_step Y ts)" and "Suc (length (merge_step Y ts)) = length ts"
proof -
  let ?f = "\<lambda>(u, v). link Y u v"
  let ?ps = "pairs ts"
  let ?k = "argmin (map ?f ?ps)"
  from inv have dist: "distinct ts"
    and cover: "(\<Union>u\<in>set ts. set (leaves u)) = {0..<n}"
    and disj': "\<forall>u\<in>set ts. \<forall>v\<in>set ts. u \<noteq> v \<longrightarrow> set (leaves u) \<inter> set (leaves v) = {}"
    and wf': "\<forall>u\<in>set ts. wf_dendrogram Y u"
    and low': "\<forall>u\<in>set ts. \<forall>v\<in>set ts. \<forall>w\<in>set ts. u \<noteq> v \<longrightarrow> maxdist w \<le> link Y u v"
    unfolding forest_inv_def by simp_all
  have disj: "set (leaves u) \<inter> set (leaves v) = {}"
    if "u \<in> set ts" "v \<in> set ts" "u \<noteq> v" for u v
    using disj' [rule_format, OF that] .
  have wf: "wf_dendrogram Y u" if "u \<in> set ts" for u
    using wf' that by (rule bspec)
  have low: "maxdist w \<le> link Y u v"
    if "u \<in> set ts" "v \<in> set ts" "w \<in> set ts" "u \<noteq> v" for u v w
    using low' [rule_format, OF that] .
  have ne: "?ps \<noteq> []" using len by (rule pairs_nonempty)
  then have k: "?k < length ?ps" using argmin_less [of "map ?f ?ps"] by simp
  obtain u v where uv: "?ps ! ?k = (u, v)" by (cases "?ps ! ?k")
  with k have uvp: "(u, v) \<in> set ?ps" by (metis nth_mem)
  from set_pairs_subset [OF uvp] have u: "u \<in> set ts" and v: "v \<in> set ts" by simp_all
  from pairs_distinct [OF dist uvp] have neq: "u \<noteq> v" .
  define \<delta> where "\<delta> = link Y u v"
  define N where "N = Node u v \<delta>"
  define R where "R = remove1 u (remove1 v ts)"
  have step: "merge_step Y ts = R @ [N]"
    by (simp add: merge_step_def Let_def uv R_def N_def \<delta>_def)
  have setR: "set R = set ts - {u, v}" using dist by (auto simp: R_def)
  have distR: "distinct R" using dist by (simp add: R_def)
  have min_pair: "\<delta> \<le> link Y x y" if "(x, y) \<in> set ?ps" for x y
  proof -
    from that have "?f (x, y) \<in> set (map ?f ?ps)" by (metis image_eqI set_map)
    from argmin_le [OF this] k uv show ?thesis by (simp add: \<delta>_def)
  qed
  have min_link: "\<delta> \<le> link Y x y" if "x \<in> set ts" "y \<in> set ts" "x \<noteq> y" for x y
  proof -
    from pairs_total [OF that] show ?thesis
    proof
      assume "(x, y) \<in> set ?ps" then show ?thesis by (rule min_pair)
    next
      assume "(y, x) \<in> set ?ps"
      then have "\<delta> \<le> link Y y x" by (rule min_pair)
      then show ?thesis using link_sym [OF disj [OF that]] by simp
    qed
  qed
  have low\<delta>: "maxdist w \<le> \<delta>" if "w \<in> set ts" for w
    unfolding \<delta>_def using u v that neq by (rule low)
  have leavesN: "set (leaves N) = set (leaves u) \<union> set (leaves v)" by (simp add: N_def)
  have Nnew: "N \<notin> set ts"
  proof
    assume Nin: "N \<in> set ts"
    have "N \<noteq> u" by (simp add: N_def)
    from disj [OF Nin u this] leavesN leaves_nonempty [of u] show False by auto
  qed
  have maxN: "maxdist N = \<delta>" using low\<delta> [OF u] low\<delta> [OF v] by (simp add: N_def)
  have wfN: "wf_dendrogram Y N"
    using wf [OF u] wf [OF v] disj [OF u v neq] low\<delta> [OF u] low\<delta> [OF v]
    by (simp add: N_def \<delta>_def)
  have linkN: "\<delta> \<le> link Y N y" if "y \<in> set R" for y
  proof -
    from that setR have y: "y \<in> set ts" "y \<noteq> u" "y \<noteq> v" by auto
    have "\<delta> \<le> entry Y i j" if "i \<in> set (leaves N)" "j \<in> set (leaves y)" for i j
    proof -
      from that(1) leavesN consider "i \<in> set (leaves u)" | "i \<in> set (leaves v)" by auto
      then show ?thesis
      proof cases
        case 1
        from min_link [OF u y(1) y(2) [symmetric]] link_le [OF 1 that(2), of Y] show ?thesis by simp
      next
        case 2
        from min_link [OF v y(1) y(3) [symmetric]] link_le [OF 2 that(2), of Y] show ?thesis by simp
      qed
    qed
    then show ?thesis unfolding link_ge_iff by blast
  qed
  have disjN: "set (leaves N) \<inter> set (leaves y) = {}" if "y \<in> set R" for y
  proof -
    from that setR have y: "y \<in> set ts" "y \<noteq> u" "y \<noteq> v" by auto
    from disj [OF u y(1) y(2) [symmetric]] disj [OF v y(1) y(3) [symmetric]] leavesN
    show ?thesis by auto
  qed
  have "distinct (R @ [N])" using distR Nnew setR by auto
  moreover have "(\<Union>x\<in>set (R @ [N]). set (leaves x)) = {0..<n}"
  proof -
    have "set ts = set R \<union> {u, v}" using setR u v by auto
    then have "(\<Union>x\<in>set ts. set (leaves x)) = (\<Union>x\<in>set R \<union> {u, v}. set (leaves x))"
      by (simp only:)
    also have "\<dots> = (\<Union>x\<in>set R. set (leaves x)) \<union> (set (leaves u) \<union> set (leaves v))"
      by (simp only: UN_Un UN_insert UN_empty Un_empty_right)
    finally have "(\<Union>x\<in>set R. set (leaves x)) \<union> set (leaves N) = {0..<n}"
      using cover leavesN by (simp only:)
    then show ?thesis by (simp only: set_append list.set UN_Un UN_insert UN_empty Un_empty_right)
  qed
  moreover have "\<forall>x\<in>set (R @ [N]). \<forall>y\<in>set (R @ [N]). x \<noteq> y \<longrightarrow> set (leaves x) \<inter> set (leaves y) = {}"
  proof (intro ballI impI)
    fix x y assume xy: "x \<in> set (R @ [N])" "y \<in> set (R @ [N])" "x \<noteq> y"
    then consider "x \<in> set R" "y \<in> set R" | "x = N" "y \<in> set R" | "x \<in> set R" "y = N"
      by auto
    then show "set (leaves x) \<inter> set (leaves y) = {}"
    proof cases
      case 1
      with setR have "x \<in> set ts" "y \<in> set ts" by simp_all
      then show ?thesis using xy(3) by (rule disj)
    next
      case 2
      with disjN show ?thesis by simp
    next
      case 3
      with disjN [of x] show ?thesis by auto
    qed
  qed
  moreover have "\<forall>x\<in>set (R @ [N]). wf_dendrogram Y x"
    using wfN wf setR by auto
  moreover have "\<forall>x\<in>set (R @ [N]). \<forall>y\<in>set (R @ [N]). \<forall>w\<in>set (R @ [N]).
      x \<noteq> y \<longrightarrow> maxdist w \<le> link Y x y"
  proof (intro ballI impI)
    fix x y w assume xy: "x \<in> set (R @ [N])" "y \<in> set (R @ [N])" "x \<noteq> y"
      and w: "w \<in> set (R @ [N])"
    have "maxdist w \<le> \<delta>" using w maxN low\<delta> setR by auto
    also have "\<delta> \<le> link Y x y"
    proof -
      from xy consider "x \<in> set R" "y \<in> set R" | "x = N" "y \<in> set R" | "x \<in> set R" "y = N"
        by auto
      then show ?thesis
      proof cases
        case 1
        with setR have "x \<in> set ts" "y \<in> set ts" by simp_all
        then show ?thesis using xy(3) by (rule min_link)
      next
        case 2
        with linkN show ?thesis by simp
      next
        case 3
        from linkN [OF 3(1)] link_sym [OF disjN [OF 3(1)], of Y] 3(2) show ?thesis by simp
      qed
    qed
    finally show "maxdist w \<le> link Y x y" .
  qed
  ultimately show "forest_inv Y n (merge_step Y ts)"
    unfolding step forest_inv_def by simp
  have "v \<in> set ts" "u \<in> set (remove1 v ts)" using u v neq by auto
  then have "Suc (Suc (length R)) = length ts"
    by (simp add: R_def length_remove1_Suc)
  then show "Suc (length (merge_step Y ts)) = length ts" by (simp add: step)
qed

lemma linkage_loop_inv:
  "forest_inv Y n ts \<Longrightarrow> length ts = Suc k \<Longrightarrow>
     forest_inv Y n (linkage_loop k Y ts) \<and> length (linkage_loop k Y ts) = 1"
proof (induction k arbitrary: ts)
  case 0
  then show ?case by simp
next
  case (Suc k)
  from Suc.prems(2) have len: "2 \<le> length ts" by simp
  from merge_step_inv [OF Suc.prems(1) len] Suc.prems(2)
  have "forest_inv Y n (merge_step Y ts)" "length (merge_step Y ts) = Suc k" by simp_all
  from Suc.IH [OF this] show ?case by simp
qed

lemma link_Leaf: "link Y (Leaf i) (Leaf j) = entry Y i j"
  by (simp add: link_def)

lemma initial_forest:
  assumes nonneg: "\<And>i j. i < n \<Longrightarrow> j < n \<Longrightarrow> i \<noteq> j \<Longrightarrow> 0 \<le> entry Y i j"
  shows "forest_inv Y n (map Leaf [0..<n])"
proof -
  have "distinct (map Leaf [0..<n])" by (simp add: distinct_map inj_on_def)
  moreover have "(\<Union>u\<in>set (map Leaf [0..<n]). set (leaves u)) = {0..<n}" by auto
  moreover have "\<forall>u\<in>set (map Leaf [0..<n]). \<forall>v\<in>set (map Leaf [0..<n]).
      u \<noteq> v \<longrightarrow> set (leaves u) \<inter> set (leaves v) = {}" by auto
  moreover have "\<forall>u\<in>set (map Leaf [0..<n]). wf_dendrogram Y u" by auto
  moreover have "\<forall>u\<in>set (map Leaf [0..<n]). \<forall>v\<in>set (map Leaf [0..<n]).
      \<forall>w\<in>set (map Leaf [0..<n]). u \<noteq> v \<longrightarrow> maxdist w \<le> link Y u v"
  proof (intro ballI impI)
    fix u v w assume mem: "u \<in> set (map Leaf [0..<n])" "v \<in> set (map Leaf [0..<n])"
      "w \<in> set (map Leaf [0..<n])" and uv: "u \<noteq> v"
    from mem obtain i j k where ijk: "u = Leaf i" "v = Leaf j" "w = Leaf k" "i < n" "j < n"
      by auto
    from uv ijk(1,2) have "i \<noteq> j" by auto
    with ijk show "maxdist w \<le> link Y u v" using nonneg [of i j] by (simp add: link_Leaf)
  qed
  ultimately show ?thesis unfolding forest_inv_def by simp
qed

lemma wf_distinct_leaves: "wf_dendrogram Y u \<Longrightarrow> distinct (leaves u)"
  by (induction u) auto

lemma single_result:
  assumes ne: "concat Y \<noteq> []"
    and nonneg: "\<And>i j. i < length Y \<Longrightarrow> j < length Y \<Longrightarrow> i \<noteq> j \<Longrightarrow> 0 \<le> entry Y i j"
  shows "\<exists>Z. single Y = Inr Z \<and> wf_dendrogram Y Z \<and> set (leaves Z) = {0..<length Y}
           \<and> length (leaves Z) = length Y"
proof -
  let ?n = "length Y"
  from ne have "Y \<noteq> []" by auto
  then have n: "length (map Leaf [0..<?n]) = Suc (?n - 1)" by (cases Y) simp_all
  let ?ts = "linkage_loop (?n - 1) Y (map Leaf [0..<?n])"
  from linkage_loop_inv [OF initial_forest n, of Y] nonneg
  have inv: "forest_inv Y ?n ?ts" and len: "length ?ts = 1" by simp_all
  from len obtain Z where ts: "?ts = [Z]" by (cases ?ts) auto
  with inv have wf: "wf_dendrogram Y Z" and lv: "set (leaves Z) = {0..<?n}"
    by (simp_all add: forest_inv_def)
  from wf_distinct_leaves [OF wf] lv have "length (leaves Z) = ?n"
    by (metis card_atLeastLessThan diff_zero distinct_card)
  moreover have "single Y = Inr Z" using ne ts by (simp add: single_def)
  ultimately show ?thesis using wf lv by simp
qed

lemma pdist_result:
  assumes "points \<noteq> []"
  shows "\<exists>Y. pdist points = Inr Y \<and> length Y = length points
           \<and> (concat Y = [] \<longleftrightarrow> length points = 1)
           \<and> (\<forall>i<length points. \<forall>j<length points. i \<noteq> j \<longrightarrow>
                 entry Y i j = euclidean (points ! i) (points ! j))"
proof -
  let ?n = "length points"
  let ?Y = "map (\<lambda>i. map (\<lambda>j. euclidean (points ! i) (points ! j)) [Suc i..<?n]) [0..<?n]"
  have Y: "pdist points = Inr ?Y" using assms by (simp add: pdist_def)
  have len: "length ?Y = ?n" by simp
  have pos: "0 < ?n" using assms by simp
  have "concat ?Y = [] \<longleftrightarrow> ?n = 1"
  proof
    assume c: "concat ?Y = []"
    show "?n = 1"
    proof (rule ccontr)
      assume "?n \<noteq> 1"
      with pos have "1 < ?n" by linarith
      then have "?Y ! 0 = map (\<lambda>j. euclidean (points ! 0) (points ! j)) [Suc 0..<?n]"
        using pos by (simp only: nth_map length_upt diff_zero nth_upt add_0)
      with \<open>1 < ?n\<close> assms have "?Y ! 0 \<noteq> []" by simp
      moreover have "?Y ! 0 \<in> set ?Y" using pos by (intro nth_mem) simp
      ultimately show False using c by (simp only: concat_eq_Nil_conv) blast
    qed
  next
    assume "?n = 1"
    then show "concat ?Y = []" by simp
  qed
  moreover have "entry ?Y i j = euclidean (points ! i) (points ! j)"
    if "i < ?n" "j < ?n" "i \<noteq> j" for i j
  proof (cases "i < j")
    case True
    with that show ?thesis by (simp add: entry_def)
  next
    case False
    with that have "j < i" by simp
    with that False have "entry ?Y i j = euclidean (points ! j) (points ! i)"
      by (simp add: entry_def)
    then show ?thesis by (simp add: euclidean_def power2_commute)
  qed
  ultimately show ?thesis using Y len by blast
qed

lemma euclidean_nonneg: "0 \<le> euclidean p q"
  by (simp add: euclidean_def)

lemma cluster_labels_result:
  assumes "2 \<le> length points"
  shows "\<exists>Y Z. pdist points = Inr Y \<and> single Y = Inr Z
           \<and> cluster_labels points max_dist = Inr (fcluster Z max_dist)
           \<and> length Y = length points
           \<and> (\<forall>i<length points. \<forall>j<length points. i \<noteq> j \<longrightarrow>
                 entry Y i j = euclidean (points ! i) (points ! j))
           \<and> wf_dendrogram Y Z \<and> set (leaves Z) = {0..<length points}
           \<and> length (leaves Z) = length points"
proof -
  from assms have "points \<noteq> []" by auto
  from pdist_result [OF this] obtain Y where
    Y: "pdist points = Inr Y" "length Y = length points"
      "concat Y = [] \<longleftrightarrow> length points = 1"
      "\<forall>i<length points. \<forall>j<length points. i \<noteq> j \<longrightarrow>
          entry Y i j = euclidean (points ! i) (points ! j)"
    by blast
  from Y(3) assms have ne: "concat Y \<noteq> []" by simp
  have "0 \<le> entry Y i j" if "i < length Y" "j < length Y" "i \<noteq> j" for i j
    using that Y(2,4) euclidean_nonneg by simp
  from single_result [OF ne this] obtain Z where
    Z: "single Y = Inr Z" "wf_dendrogram Y Z" "set (leaves Z) = {0..<length Y}"
      "length (leaves Z) = length Y"
    by blast
  have "cluster_labels points max_dist = Inr (fcluster Z max_dist)"
    by (simp add: cluster_labels_def Y(1) Z(1))
  with Y Z show ?thesis by auto
qed

text \<open>
  Claim C10. \<open>cluster\<close> requires at least two input points: on the empty input and on
  a single point it fails (the empty input is rejected by \<^verbatim>\<open>pdist\<close>, the empty
  distance matrix of a single point by \<^verbatim>\<open>single\<close>) instead of returning each input
  point as its own centre; on two points or more it returns cluster centres.
\<close>

theorem cluster_needs_two_points:
  "(length points < 2 \<longrightarrow> cluster points max_dist = Inl ValueError)
   \<and> (2 \<le> length points \<longrightarrow> (\<exists>centers. cluster points max_dist = Inr centers))"
proof (intro conjI impI)
  assume short: "length points < 2"
  show "cluster points max_dist = Inl ValueError"
  proof (cases "points = []")
    case True
    then show ?thesis by (simp add: cluster_def cluster_labels_def pdist_def)
  next
    case False
    with short have one: "length points = 1" by (cases points) auto
    from pdist_result [OF False] obtain Y where
      "pdist points = Inr Y" "concat Y = [] \<longleftrightarrow> length points = 1" by blast
    with one show ?thesis by (simp add: cluster_def cluster_labels_def single_def)
  qed
next
  assume "2 \<le> length points"
  from cluster_labels_result [OF this, of max_dist] obtain T where
    "cluster_labels points max_dist = Inr T" by blast
  then show "\<exists>centers. cluster points max_dist = Inr centers" by (simp add: cluster_def)
qed

theorem cluster_needs_two_points_witness:
  "cluster [] 50 = Inl ValueError \<and> cluster [(3, 4)] 50 = Inl ValueError
   \<and> (\<exists>centers. cluster [(0, 0), (30, 0)] 50 = Inr centers)"
  using cluster_needs_two_points [of "[]" 50] cluster_needs_two_points [of "[(3, 4)]" 50]
    cluster_needs_two_points [of "[(0, 0), (30, 0)]" 50]
  by simp

subsection \<open>Cutting the dendrogram\<close>

lemma flat_clusters_cover: "\<Union> (set ` set (flat_clusters t Z)) = set (leaves Z)"
  by (induction Z) auto

lemma flat_clusters_member:
  "c \<in> set (flat_clusters t Z) \<Longrightarrow> i \<in> set c \<Longrightarrow> i \<in> set (leaves Z)"
  using flat_clusters_cover [of t Z] by blast

lemma low_connected:
  assumes E: "\<And>i j. i \<in> A \<Longrightarrow> j \<in> A \<Longrightarrow> i \<noteq> j \<Longrightarrow> (i, j) \<in> E \<longleftrightarrow> entry Y i j \<le> t"
  shows "wf_dendrogram Y Z \<Longrightarrow> maxdist Z \<le> t \<Longrightarrow> set (leaves Z) \<subseteq> A \<Longrightarrow>
         i \<in> set (leaves Z) \<Longrightarrow> j \<in> set (leaves Z) \<Longrightarrow> (i, j) \<in> E\<^sup>*"
proof (induction Z arbitrary: i j)
  case (Leaf k)
  then show ?case by simp
next
  case (Node l r h)
  from Node.prems(1) have wf: "wf_dendrogram Y l" "wf_dendrogram Y r"
    and disj: "set (leaves l) \<inter> set (leaves r) = {}" and h: "h = link Y l r"
    by simp_all
  from Node.prems(2) have low: "maxdist l \<le> t" "maxdist r \<le> t" "h \<le> t" by simp_all
  from Node.prems(3) have sub: "set (leaves l) \<subseteq> A" "set (leaves r) \<subseteq> A" by simp_all
  note IHl = Node.IH(1) [OF wf(1) low(1) sub(1)]
  note IHr = Node.IH(2) [OF wf(2) low(2) sub(2)]
  from link_attained [of l r Y] obtain a b where
    ab: "a \<in> set (leaves l)" "b \<in> set (leaves r)" "link Y l r = entry Y a b" by blast
  with disj have neq: "a \<noteq> b" by auto
  have "(a, b) \<in> E" using E [of a b] ab sub neq h low(3) by auto
  moreover have "(b, a) \<in> E" using E [of b a] ab sub neq h low(3) entry_sym [OF neq, of Y] by auto
  ultimately have cross: "(a, b) \<in> E\<^sup>*" "(b, a) \<in> E\<^sup>*" by simp_all
  from Node.prems(4,5) consider
      "i \<in> set (leaves l)" "j \<in> set (leaves l)"
    | "i \<in> set (leaves r)" "j \<in> set (leaves r)"
    | "i \<in> set (leaves l)" "j \<in> set (leaves r)"
    | "i \<in> set (leaves r)" "j \<in> set (leaves l)"
    by auto
  then show ?case
  proof cases
    case 1
    then show ?thesis by (rule IHl)
  next
    case 2
    then show ?thesis by (rule IHr)
  next
    case 3
    from IHl [OF 3(1) ab(1)] cross(1) IHr [OF ab(2) 3(2)] show ?thesis by (rule rtrancl_trans [OF rtrancl_trans])
  next
    case 4
    from IHr [OF 4(1) ab(2)] cross(2) IHl [OF ab(1) 4(2)] show ?thesis by (rule rtrancl_trans [OF rtrancl_trans])
  qed
qed

lemma flat_clusters_connected:
  assumes E: "\<And>i j. i \<in> A \<Longrightarrow> j \<in> A \<Longrightarrow> i \<noteq> j \<Longrightarrow> (i, j) \<in> E \<longleftrightarrow> entry Y i j \<le> t"
  shows "wf_dendrogram Y Z \<Longrightarrow> set (leaves Z) \<subseteq> A \<Longrightarrow> c \<in> set (flat_clusters t Z) \<Longrightarrow>
         i \<in> set c \<Longrightarrow> j \<in> set c \<Longrightarrow> (i, j) \<in> E\<^sup>*"
proof (induction Z)
  case (Leaf k)
  then show ?case by simp
next
  case (Node l r h)
  show ?case
  proof (cases "maxdist (Node l r h) \<le> t")
    case True
    with Node.prems(3) have "c = leaves (Node l r h)" by simp
    with Node.prems True show ?thesis
      using low_connected [OF E, where Z = "Node l r h" and i = i and j = j] by blast
  next
    case False
    with Node.prems(3) consider "c \<in> set (flat_clusters t l)" | "c \<in> set (flat_clusters t r)"
      by auto
    then show ?thesis
    proof cases
      case 1
      with Node.IH(1) Node.prems show ?thesis by simp
    next
      case 2
      with Node.IH(2) Node.prems show ?thesis by simp
    qed
  qed
qed

lemma flat_clusters_separated:
  assumes E: "\<And>i j. i \<in> A \<Longrightarrow> j \<in> A \<Longrightarrow> i \<noteq> j \<Longrightarrow> (i, j) \<in> E \<longleftrightarrow> entry Y i j \<le> t"
  shows "wf_dendrogram Y Z \<Longrightarrow> set (leaves Z) \<subseteq> A \<Longrightarrow>
         c \<in> set (flat_clusters t Z) \<Longrightarrow> c' \<in> set (flat_clusters t Z) \<Longrightarrow> c \<noteq> c' \<Longrightarrow>
         i \<in> set c \<Longrightarrow> j \<in> set c' \<Longrightarrow> i \<noteq> j \<and> (i, j) \<notin> E"
proof (induction Z)
  case (Leaf k)
  then show ?case by simp
next
  case (Node l r h)
  from Node.prems(1) have wf: "wf_dendrogram Y l" "wf_dendrogram Y r"
    and disj: "set (leaves l) \<inter> set (leaves r) = {}" and h: "h = link Y l r"
    and mono: "maxdist l \<le> h" "maxdist r \<le> h"
    by simp_all
  from Node.prems(2) have sub: "set (leaves l) \<subseteq> A" "set (leaves r) \<subseteq> A" by simp_all
  show ?case
  proof (cases "maxdist (Node l r h) \<le> t")
    case True
    with Node.prems(3,4,5) show ?thesis by simp
  next
    case False
    with mono have high: "t < h" by simp
    have cross: "a \<noteq> b \<and> (a, b) \<notin> E \<and> (b, a) \<notin> E"
      if "a \<in> set (leaves l)" "b \<in> set (leaves r)" for a b
    proof -
      from that disj have neq: "a \<noteq> b" by auto
      from link_le [OF that, of Y] h high have "t < entry Y a b" by simp
      with E [of a b] E [of b a] that sub neq entry_sym [OF neq, of Y] show ?thesis by auto
    qed
    from False Node.prems(3,4) consider
        "c \<in> set (flat_clusters t l)" "c' \<in> set (flat_clusters t l)"
      | "c \<in> set (flat_clusters t r)" "c' \<in> set (flat_clusters t r)"
      | "c \<in> set (flat_clusters t l)" "c' \<in> set (flat_clusters t r)"
      | "c \<in> set (flat_clusters t r)" "c' \<in> set (flat_clusters t l)"
      by auto
    then show ?thesis
    proof cases
      case 1
      from Node.IH(1) [OF wf(1) sub(1) 1 Node.prems(5,6,7)] show ?thesis .
    next
      case 2
      from Node.IH(2) [OF wf(2) sub(2) 2 Node.prems(5,6,7)] show ?thesis .
    next
      case 3
      from flat_clusters_member [OF 3(1) Node.prems(6)] flat_clusters_member [OF 3(2) Node.prems(7)]
      show ?thesis using cross by blast
    next
      case 4
      from flat_clusters_member [OF 4(2) Node.prems(7)] flat_clusters_member [OF 4(1) Node.prems(6)]
      show ?thesis using cross by blast
    qed
  qed
qed

lemma cluster_index_mem:
  "i \<in> \<Union> (set ` set cs) \<Longrightarrow> cluster_index cs i < length cs \<and> i \<in> set (cs ! cluster_index cs i)"
  by (induction cs) auto

lemma cluster_index_le: "k < length cs \<Longrightarrow> i \<in> set (cs ! k) \<Longrightarrow> cluster_index cs i \<le> k"
proof (induction cs arbitrary: k)
  case Nil
  then show ?case by simp
next
  case (Cons c cs)
  then show ?case by (cases k) auto
qed

lemma fcluster_same_label:
  assumes E: "\<And>i j. i \<in> A \<Longrightarrow> j \<in> A \<Longrightarrow> i \<noteq> j \<Longrightarrow> (i, j) \<in> E \<longleftrightarrow> entry Y i j \<le> t"
    and EA: "E \<subseteq> A \<times> A" and sym: "sym E"
    and wf: "wf_dendrogram Y Z" and lv: "set (leaves Z) = A"
    and i: "i \<in> A" and j: "j \<in> A"
  shows "cluster_index (flat_clusters t Z) i = cluster_index (flat_clusters t Z) j
         \<longleftrightarrow> (i, j) \<in> E\<^sup>*"
proof
  let ?cs = "flat_clusters t Z"
  have cov: "\<Union> (set ` set ?cs) = A" using flat_clusters_cover [of t Z] lv by simp
  have sub: "set (leaves Z) \<subseteq> A" using lv by simp
  note mem = cluster_index_mem [of _ ?cs, unfolded cov]
  {
    assume eq: "cluster_index ?cs i = cluster_index ?cs j"
    from mem [OF i] mem [OF j] eq
    have "?cs ! cluster_index ?cs i \<in> set ?cs" "i \<in> set (?cs ! cluster_index ?cs i)"
      "j \<in> set (?cs ! cluster_index ?cs i)"
      by simp_all
    from flat_clusters_connected [OF E wf sub this] show "(i, j) \<in> E\<^sup>*" .
  }
  have stay: "y \<in> set (?cs ! cluster_index ?cs x)" if "x \<in> A" "(x, y) \<in> E\<^sup>*" for x y
    using that(2)
  proof (induction rule: rtrancl_induct)
    case base
    from mem [OF that(1)] show ?case by simp
  next
    case (step y z)
    from step.hyps(2) EA have z: "z \<in> A" by auto
    let ?c = "?cs ! cluster_index ?cs x" and ?c' = "?cs ! cluster_index ?cs z"
    from mem [OF that(1)] have c: "?c \<in> set ?cs" by simp
    from mem [OF z] have c': "?c' \<in> set ?cs" "z \<in> set ?c'" by simp_all
    show ?case
    proof (cases "?c = ?c'")
      case True
      with c'(2) show ?thesis by simp
    next
      case False
      from flat_clusters_separated [OF E wf sub c c'(1) False step.IH c'(2)] step.hyps(2)
      show ?thesis by simp
    qed
  qed
  {
    assume ij: "(i, j) \<in> E\<^sup>*"
    then have ji: "(j, i) \<in> E\<^sup>*" using sym by (metis sym_rtrancl symD)
    from stay [OF i ij] mem [OF i] have "cluster_index ?cs j \<le> cluster_index ?cs i"
      by (intro cluster_index_le) simp_all
    moreover from stay [OF j ji] mem [OF j] have "cluster_index ?cs i \<le> cluster_index ?cs j"
      by (intro cluster_index_le) simp_all
    ultimately show "cluster_index ?cs i = cluster_index ?cs j" by simp
  }
qed

subsection \<open>Grouping the points by label\<close>

lemma group_points_fold:
  assumes f: "f = (\<lambda>i clusters.
           clusters(T ! i \<mapsto> (case clusters (T ! i) of None \<Rightarrow> [] | Some arr \<Rightarrow> arr) @ [points ! i]))"
  shows "k \<le> length T \<Longrightarrow>
   fold f [0..<k] Map.empty l
   = (if l \<in> set (take k T)
      then Some (map (\<lambda>i. points ! i) (filter (\<lambda>i. T ! i = l) [0..<k])) else None)"
proof (induction k arbitrary: l)
  case 0
  show ?case by simp
next
  case (Suc k)
  then have k: "k < length T" by simp
  then have tk: "set (take (Suc k) T) = insert (T ! k) (set (take k T))"
    by (simp add: take_Suc_conv_app_nth)
  define m where "m = fold f [0..<k] Map.empty"
  have IH: "m l' = (if l' \<in> set (take k T)
      then Some (map (\<lambda>i. points ! i) (filter (\<lambda>i. T ! i = l') [0..<k])) else None)" for l'
    unfolding m_def using Suc.IH [of l'] k by simp
  have step: "fold f [0..<Suc k] Map.empty l
      = (if l = T ! k
         then Some ((case m (T ! k) of None \<Rightarrow> [] | Some arr \<Rightarrow> arr) @ [points ! k])
         else m l)"
    by (simp add: m_def f)
  show ?case
  proof (cases "l = T ! k")
    case True
    show ?thesis
    proof (cases "l \<in> set (take k T)")
      case in_prev: True
      with True step IH [of l] show ?thesis by (simp add: tk)
    next
      case not_prev: False
      then have "filter (\<lambda>i. T ! i = l) [0..<k] = []"
        using k by (auto simp: filter_empty_conv in_set_conv_nth)
      with True step IH [of l] not_prev show ?thesis by (simp add: tk)
    qed
  next
    case False
    with step IH [of l] show ?thesis by (simp add: tk)
  qed
qed

lemma group_points_eq:
  "group_points T points l = (if l \<in> set T then Some (members T points l) else None)"
  using group_points_fold [OF refl, of "length T" T points l]
  by (simp add: group_points_def members_def)

lemma dict_values_eq:
  "dict_values T (group_points T points) = map (members T points) (sort (remdups T))"
proof -
  have "List.map_filter (group_points T points) ks = map (members T points) ks"
    if "set ks \<subseteq> set T" for ks
    using that by (induction ks) (simp_all add: List.map_filter_simps group_points_eq)
  then show ?thesis by (simp add: dict_values_def)
qed

lemma sym_close_pairs: "sym (close_pairs points max_dist)"
  by (auto simp: sym_def close_pairs_def euclidean_def power2_commute)

text \<open>
  Claim C2. For every input of at least two points and every threshold \<open>max_dist\<close>, two
  input points get the same label, that is, end up in the same cluster, if and only if
  they are connected by a chain of input points in which each consecutive pair is at
  Euclidean distance at most \<open>max_dist\<close>; and \<open>cluster\<close> returns, for each label, the
  point whose coordinates are the arithmetic means of the coordinates of the points
  that carry the label.
\<close>

theorem cluster_single_link:
  assumes "2 \<le> length points"
  shows "\<exists>T. cluster_labels points max_dist = Inr T \<and> length T = length points
       \<and> (\<forall>i<length points. \<forall>j<length points.
             T ! i = T ! j \<longleftrightarrow> (i, j) \<in> (close_pairs points max_dist)\<^sup>*)
       \<and> cluster points max_dist
           = Inr (map (\<lambda>l. (mean (map fst (members T points l)), mean (map snd (members T points l))))
                      (sort (remdups T)))"
proof -
  let ?n = "length points"
  let ?E = "close_pairs points max_dist"
  from cluster_labels_result [OF assms, of max_dist] obtain Y Z where
    T: "cluster_labels points max_dist = Inr (fcluster Z max_dist)"
    and ent: "\<forall>i<?n. \<forall>j<?n. i \<noteq> j \<longrightarrow> entry Y i j = euclidean (points ! i) (points ! j)"
    and wf: "wf_dendrogram Y Z" and lv: "set (leaves Z) = {0..<?n}"
    and len: "length (leaves Z) = ?n"
    by blast
  let ?T = "fcluster Z max_dist"
  have lenT: "length ?T = ?n" by (simp add: fcluster_def len)
  have E: "(i, j) \<in> ?E \<longleftrightarrow> entry Y i j \<le> max_dist"
    if "i \<in> {0..<?n}" "j \<in> {0..<?n}" "i \<noteq> j" for i j
    using that ent by (simp add: close_pairs_def)
  have EA: "?E \<subseteq> {0..<?n} \<times> {0..<?n}" by (auto simp: close_pairs_def)
  have same: "?T ! i = ?T ! j \<longleftrightarrow> (i, j) \<in> ?E\<^sup>*" if "i < ?n" "j < ?n" for i j
  proof -
    from that have ij: "i \<in> {0..<?n}" "j \<in> {0..<?n}" by simp_all
    from that have "?T ! i = ?T ! j \<longleftrightarrow>
        cluster_index (flat_clusters max_dist Z) i = cluster_index (flat_clusters max_dist Z) j"
      by (simp add: fcluster_def len)
    also have "\<dots> \<longleftrightarrow> (i, j) \<in> ?E\<^sup>*"
      using E EA sym_close_pairs wf lv ij by (rule fcluster_same_label)
    finally show ?thesis .
  qed
  have "cluster points max_dist
      = Inr (map (\<lambda>l. (mean (map fst (members ?T points l)), mean (map snd (members ?T points l))))
                 (sort (remdups ?T)))"
    by (simp add: cluster_def T dict_values_eq comp_def)
  with T lenT same show ?thesis by blast
qed

theorem cluster_single_link_witness:
  "cluster_labels [(0, 0), (30, 0), (60, 0), (200, 0)] 50 = Inr [2, 2, 2, 1]
   \<and> 50 < euclidean (0, 0) (60, 0)
   \<and> (0, 2) \<in> (close_pairs [(0, 0), (30, 0), (60, 0), (200, 0)] 50)\<^sup>*
   \<and> (2, 3) \<notin> (close_pairs [(0, 0), (30, 0), (60, 0), (200, 0)] 50)\<^sup>*
   \<and> cluster [(0, 0), (30, 0), (60, 0), (200, 0)] 50 = Inr [(200, 0), (30, 0)]"
proof -
  let ?points = "[(0, 0), (30, 0), (60, 0), (200, 0)] :: point list"
  have n: "2 \<le> length ?points" by simp
  have labels: "cluster_labels ?points 50 = Inr [2, 2, 2, 1]"
    by (simp add: cluster_labels_def pdist_def single_def fcluster_def merge_step_def link_def
        entry_def euclidean_def upt_rec)
  from cluster_single_link [OF n, of 50] labels
  have chain: "\<forall>i<length ?points. \<forall>j<length ?points.
      [2, 2, 2, 1 :: nat] ! i = [2, 2, 2, 1] ! j \<longleftrightarrow> (i, j) \<in> (close_pairs ?points 50)\<^sup>*"
    and centers: "cluster ?points 50
      = Inr (map (\<lambda>l. (mean (map fst (members [2, 2, 2, 1] ?points l)),
                        mean (map snd (members [2, 2, 2, 1] ?points l))))
                 (sort (remdups [2, 2, 2, 1])))"
    by auto
  from chain have c: "i < 4 \<Longrightarrow> j < 4 \<Longrightarrow>
      [2, 2, 2, 1 :: nat] ! i = [2, 2, 2, 1] ! j \<longleftrightarrow> (i, j) \<in> (close_pairs ?points 50)\<^sup>*" for i j
    by simp
  have "(0, 2) \<in> (close_pairs ?points 50)\<^sup>*" using c [of 0 2] by simp
  moreover have "(2, 3) \<notin> (close_pairs ?points 50)\<^sup>*" using c [of 2 3] by simp
  moreover have "50 < euclidean (0, 0) (60, 0)" by (simp add: euclidean_def)
  moreover have "cluster ?points 50 = Inr [(200, 0), (30, 0)]"
    unfolding centers by (simp add: members_def mean_def upt_rec)
  ultimately show ?thesis using labels by simp
qed

end
